theory Spec2Isabelle
  imports Main
begin

section \<open>Data model of the permission service (package permission)\<close>

text \<open>
  \<^verbatim>\<open>type PermissionMode int\<close> with its three constants, in the order of the \<^verbatim>\<open>iota\<close>.
\<close>

datatype PermissionMode = ModeRegular | ModeYolo | ModePlan

text \<open>
  The errors \<^verbatim>\<open>Request\<close> can return: the one built by \<^verbatim>\<open>fmt.Errorf\<close> (its message), and
  \<^verbatim>\<open>ctx.Err()\<close>, which is one of the two errors of package context.
\<close>

datatype ctx_error = Canceled | DeadlineExceeded

datatype error = Errorf string | ContextError ctx_error

text \<open>
  \<^verbatim>\<open>CreatePermissionRequest\<close> and \<^verbatim>\<open>PermissionRequest\<close>. The second struct has the fields of
  the first and an \<^verbatim>\<open>ID\<close>, so it is the record extension: one selector per field name
  serves both. \<^verbatim>\<open>Params\<close> (\<^verbatim>\<open>any\<close> in the source) is an opaque payload the service never
  inspects.
\<close>

record CreatePermissionRequest =
  SessionID :: string
  ToolCallID :: string
  ToolName :: string
  Description :: string
  Action :: string
  Params :: string
  Path :: string

record PermissionRequest = CreatePermissionRequest +
  ID :: string

record PermissionNotification =
  NToolCallID :: string
  Granted :: bool
  Denied :: bool

text \<open>
  Modelled from the spec: the generic publish/subscribe broker (package pubsub is not
  among the sources). \<^verbatim>\<open>Publish(kind, payload)\<close> fans the event out to the subscribers;
  a stream is the list of the events published on it, oldest first.
\<close>

datatype EventType = CreatedEvent | UpdatedEvent | DeletedEvent

type_synonym 'a Event = "EventType \<times> 'a"

text \<open>
  A \<^verbatim>\<open>chan bool\<close> is a reference: the pending table and the blocked caller hold the same
  channel. Channels live in a store, addressed by number; every channel of the service is
  made with capacity 1, so its buffer is empty (\<open>None\<close>) or holds one decision.
\<close>

type_synonym chan = nat

text \<open>
  Modelled from the spec: the concurrent map \<^verbatim>\<open>csync.Map\<close> (package csync is not among
  the sources), a map whose \<^verbatim>\<open>Get\<close>, \<^verbatim>\<open>Set\<close> and \<^verbatim>\<open>Del\<close> are each atomic.
\<close>

type_synonym ('k, 'v) csync_Map = "'k \<rightharpoonup> 'v"

text \<open>
  The struct \<^verbatim>\<open>permissionService\<close>. The two brokers are their streams; each
  \<^verbatim>\<open>sync.RWMutex\<close> guards one field for the time of one read or write and is the
  atomicity of that access; \<^verbatim>\<open>requestMu\<close> is held across a wait, so it is a field
  (\<open>True\<close>: locked). The last three fields are the run-time store the service draws on:
  the channel buffers, the next free channel address and the number of UUIDs drawn.
\<close>

record permissionService =
  requests :: "PermissionRequest Event list"
  notifications :: "PermissionNotification Event list"
  workingDir :: string
  sessionPermissions :: "PermissionRequest list"
  pendingRequests :: "(string, chan) csync_Map"
  autoApproveSessions :: "string \<rightharpoonup> bool"
  mode :: PermissionMode
  allowedTools :: "string list"
  requestMu :: bool
  activeRequest :: "PermissionRequest option"
  chans :: "chan \<Rightarrow> bool option"
  nextChan :: nat
  uuidCount :: nat

text \<open>
  What the service asks of its surroundings: \<^verbatim>\<open>os.Stat\<close> (\<open>None\<close>: an error; otherwise the
  file's kind), \<^verbatim>\<open>filepath.Dir\<close>, and the sequence of strings \<^verbatim>\<open>uuid.New().String()\<close>
  returns, call after call.
\<close>

datatype FileInfo = FileInfo (IsDir: bool)

record env =
  os_Stat :: "string \<Rightarrow> FileInfo option"
  filepath_Dir :: "string \<Rightarrow> string"
  uuid_New :: "nat \<Rightarrow> string"

section \<open>The operations, call by call\<close>

definition NewPermissionService :: "string \<Rightarrow> bool \<Rightarrow> string list \<Rightarrow> permissionService" where
  "NewPermissionService wd skip allowed =
     \<lparr>requests = [], notifications = [], workingDir = wd, sessionPermissions = [],
      pendingRequests = Map.empty, autoApproveSessions = Map.empty,
      mode = (if skip then ModeYolo else ModeRegular), allowedTools = allowed,
      requestMu = False, activeRequest = None,
      chans = (\<lambda>_. None), nextChan = 0, uuidCount = 0\<rparr>"

definition isWriteOperation :: "string \<Rightarrow> bool" where
  "isWriteOperation action = (action \<in> set [''write'', ''execute''])"

definition isReadOnlyTool :: "string \<Rightarrow> bool" where
  "isReadOnlyTool toolName = (toolName \<in> set [''mcp_sequential-thinking_sequentialthinking''])"

text \<open>
  Modelled from the spec: \<^verbatim>\<open>Publish\<close> of package pubsub, on each of the two brokers. It
  never blocks; the event joins the stream.
\<close>

definition Publish :: "PermissionRequest \<Rightarrow> permissionService \<Rightarrow> permissionService" where
  "Publish p s = s\<lparr>requests := requests s @ [(CreatedEvent, p)]\<rparr>"

definition PublishNotification :: "PermissionNotification \<Rightarrow> permissionService \<Rightarrow> permissionService" where
  "PublishNotification n s = s\<lparr>notifications := notifications s @ [(CreatedEvent, n)]\<rparr>"

text \<open>The three notifications the service builds (unset fields are Go's zero value).\<close>

definition requested :: "string \<Rightarrow> PermissionNotification" where
  "requested tc = \<lparr>NToolCallID = tc, Granted = False, Denied = False\<rparr>"

definition granted :: "string \<Rightarrow> PermissionNotification" where
  "granted tc = \<lparr>NToolCallID = tc, Granted = True, Denied = False\<rparr>"

definition denied :: "string \<Rightarrow> PermissionNotification" where
  "denied tc = \<lparr>NToolCallID = tc, Granted = False, Denied = True\<rparr>"

text \<open>Lines 143 to 147 (and their twins in the other two decision calls).\<close>

definition clearActive :: "PermissionRequest \<Rightarrow> permissionService \<Rightarrow> permissionService" where
  "clearActive permission s =
     (case activeRequest s of
        Some a \<Rightarrow> if ID a = ID permission then s\<lparr>activeRequest := None\<rparr> else s
      | None \<Rightarrow> s)"

text \<open>
  A decision call returns, or blocks in its send on a channel whose buffer is full.
\<close>

datatype decision_outcome = Completed | AwaitsSend chan

definition GrantPersistent :: "PermissionRequest \<Rightarrow> permissionService \<Rightarrow> permissionService \<times> decision_outcome" where
  "GrantPersistent permission s =
     (let s1 = PublishNotification (granted (ToolCallID permission)) s;
          rest = (\<lambda>s2. (clearActive permission
                    (s2\<lparr>sessionPermissions := sessionPermissions s2 @ [permission]\<rparr>), Completed))
      in case pendingRequests s1 (ID permission) of
           Some respCh \<Rightarrow>
             (case chans s1 respCh of
                None \<Rightarrow> rest (s1\<lparr>chans := (chans s1)(respCh := Some True)\<rparr>)
              | Some _ \<Rightarrow> (s1, AwaitsSend respCh))
         | None \<Rightarrow> rest s1)"

definition Grant :: "PermissionRequest \<Rightarrow> permissionService \<Rightarrow> permissionService \<times> decision_outcome" where
  "Grant permission s =
     (let s1 = PublishNotification (granted (ToolCallID permission)) s;
          rest = (\<lambda>s2. (clearActive permission s2, Completed))
      in case pendingRequests s1 (ID permission) of
           Some respCh \<Rightarrow>
             (case chans s1 respCh of
                None \<Rightarrow> rest (s1\<lparr>chans := (chans s1)(respCh := Some True)\<rparr>)
              | Some _ \<Rightarrow> (s1, AwaitsSend respCh))
         | None \<Rightarrow> rest s1)"

definition Deny :: "PermissionRequest \<Rightarrow> permissionService \<Rightarrow> permissionService \<times> decision_outcome" where
  "Deny permission s =
     (let s1 = PublishNotification (denied (ToolCallID permission)) s;
          rest = (\<lambda>s2. (clearActive permission s2, Completed))
      in case pendingRequests s1 (ID permission) of
           Some respCh \<Rightarrow>
             (case chans s1 respCh of
                None \<Rightarrow> rest (s1\<lparr>chans := (chans s1)(respCh := Some False)\<rparr>)
              | Some _ \<Rightarrow> (s1, AwaitsSend respCh))
         | None \<Rightarrow> rest s1)"

text \<open>Lines 178 and 179: the allowlist check.\<close>

definition allowlisted :: "permissionService \<Rightarrow> CreatePermissionRequest \<Rightarrow> bool" where
  "allowlisted s opts =
     (let commandKey = ToolName opts @ '':'' @ Action opts
      in commandKey \<in> set (allowedTools s) \<or> ToolName opts \<in> set (allowedTools s))"

text \<open>Line 184: reading a \<^verbatim>\<open>map[string]bool\<close> gives false at a missing key.\<close>

definition autoApprove :: "permissionService \<Rightarrow> string \<Rightarrow> bool" where
  "autoApprove s sessionID =
     (case autoApproveSessions s sessionID of Some b \<Rightarrow> b | None \<Rightarrow> False)"

text \<open>Lines 195 to 207: the directory stored in the request.\<close>

definition resolveDir :: "env \<Rightarrow> string \<Rightarrow> string \<Rightarrow> string" where
  "resolveDir e wd path =
     (let dir = (case os_Stat e path of
                   Some fileInfo \<Rightarrow> if IsDir fileInfo then path else filepath_Dir e path
                 | None \<Rightarrow> path)
      in if dir = ''.'' then wd else dir)"

text \<open>Lines 195 to 217: the request synthesized for \<open>opts\<close>, with the next UUID.\<close>

definition newPermission :: "env \<Rightarrow> permissionService \<Rightarrow> CreatePermissionRequest \<Rightarrow> PermissionRequest" where
  "newPermission e s opts =
     \<lparr>SessionID = SessionID opts, ToolCallID = ToolCallID opts, ToolName = ToolName opts,
      Description = Description opts, Action = Action opts, Params = Params opts,
      Path = resolveDir e (workingDir s) (Path opts),
      ID = uuid_New e (uuidCount s)\<rparr>"

text \<open>Line 221: the comparison of the cache loop; lines 220 to 229: the loop.\<close>

definition samePermission :: "PermissionRequest \<Rightarrow> PermissionRequest \<Rightarrow> bool" where
  "samePermission p permission =
     (ToolName p = ToolName permission \<and> Action p = Action permission \<and>
      SessionID p = SessionID permission \<and> Path p = Path permission)"

definition cached :: "permissionService \<Rightarrow> PermissionRequest \<Rightarrow> bool" where
  "cached s permission = list_ex (\<lambda>p. samePermission p permission) (sessionPermissions s)"

text \<open>
  \<^verbatim>\<open>Request\<close> returns its pair, or blocks: in \<^verbatim>\<open>requestMu.Lock()\<close>, or in the
  \<^verbatim>\<open>select\<close> with its prompt published.
\<close>

datatype request_outcome =
    Returned bool "error option"
  | AwaitsLock
  | AwaitsDecision PermissionRequest chan

text \<open>Lines 177 to 241, with \<^verbatim>\<open>requestMu\<close> held; the deferred unlock runs at each return.\<close>

definition Request_locked :: "env \<Rightarrow> permissionService \<Rightarrow> CreatePermissionRequest \<Rightarrow> permissionService \<times> request_outcome" where
  "Request_locked e s opts =
     (if allowlisted s opts then (s\<lparr>requestMu := False\<rparr>, Returned True None)
      else if autoApprove s (SessionID opts)
      then ((PublishNotification (granted (ToolCallID opts)) s)\<lparr>requestMu := False\<rparr>,
            Returned True None)
      else
        let permission = newPermission e s opts;
            s1 = s\<lparr>uuidCount := Suc (uuidCount s)\<rparr>
        in if cached s1 permission
           then ((PublishNotification (granted (ToolCallID opts)) s1)\<lparr>requestMu := False\<rparr>,
                 Returned True None)
           else
             let s2 = s1\<lparr>activeRequest := Some permission\<rparr>;
                 respCh = nextChan s2;
                 s3 = s2\<lparr>chans := (chans s2)(respCh := None), nextChan := Suc respCh\<rparr>;
                 s4 = s3\<lparr>pendingRequests := (pendingRequests s3)(ID permission \<mapsto> respCh)\<rparr>
             in (Publish permission s4, AwaitsDecision permission respCh))"

text \<open>Lines 150 to 175: the mode gate, the "requested" notification, the lock.\<close>

definition Request :: "env \<Rightarrow> permissionService \<Rightarrow> CreatePermissionRequest \<Rightarrow> permissionService \<times> request_outcome" where
  "Request e s opts =
     (let continue = (\<lambda>_::unit.
            let s1 = PublishNotification (requested (ToolCallID opts)) s
            in if requestMu s1 then (s1, AwaitsLock)
               else Request_locked e (s1\<lparr>requestMu := True\<rparr>) opts)
      in case mode s of
           ModePlan \<Rightarrow>
             if isWriteOperation (Action opts) \<and> \<not> isReadOnlyTool (ToolName opts)
             then (s, Returned False (Some (Errorf ''write operations are not allowed in plan mode'')))
             else continue ()
         | ModeYolo \<Rightarrow> (s, Returned True None)
         | ModeRegular \<Rightarrow> continue ())"

text \<open>
  Lines 243 to 248 and the two deferred calls: how a blocked \<^verbatim>\<open>Request\<close> ends. The
  deferred \<^verbatim>\<open>Del\<close> runs first, the deferred \<^verbatim>\<open>Unlock\<close> last.
\<close>

definition Request_received :: "permissionService \<Rightarrow> PermissionRequest \<Rightarrow> chan \<Rightarrow> (permissionService \<times> bool \<times> error option) option" where
  "Request_received s permission respCh =
     (case chans s respCh of
        None \<Rightarrow> None
      | Some g \<Rightarrow>
          Some (s\<lparr>chans := (chans s)(respCh := None),
                  pendingRequests := (pendingRequests s)(ID permission := None),
                  requestMu := False\<rparr>, g, None))"

definition Request_cancelled :: "permissionService \<Rightarrow> PermissionRequest \<Rightarrow> ctx_error \<Rightarrow> permissionService \<times> bool \<times> error option" where
  "Request_cancelled s permission err =
     (s\<lparr>pendingRequests := (pendingRequests s)(ID permission := None), requestMu := False\<rparr>,
      False, Some (ContextError err))"

definition AutoApproveSession :: "string \<Rightarrow> permissionService \<Rightarrow> permissionService" where
  "AutoApproveSession sessionID s =
     s\<lparr>autoApproveSessions := (autoApproveSessions s)(sessionID \<mapsto> True)\<rparr>"

definition SetMode :: "PermissionMode \<Rightarrow> permissionService \<Rightarrow> permissionService" where
  "SetMode m s = s\<lparr>mode := m\<rparr>"

definition GetMode :: "permissionService \<Rightarrow> PermissionMode" where
  "GetMode s = mode s"

definition SetSkipRequests :: "bool \<Rightarrow> permissionService \<Rightarrow> permissionService" where
  "SetSkipRequests skip s = (if skip then SetMode ModeYolo s else SetMode ModeRegular s)"

definition SkipRequests :: "permissionService \<Rightarrow> bool" where
  "SkipRequests s = (GetMode s = ModeYolo)"

section \<open>Concurrent callers\<close>

text \<open>
  Many goroutines call the service at once. Each caller is a thread with a program
  counter; a step of a thread is one access to the shared state (a read or write under
  its fine-grained lock, a publish, a channel operation, a lock or unlock of
  \<^verbatim>\<open>requestMu\<close>), and steps of different threads interleave freely.
\<close>

type_synonym tid = nat

datatype decision = DGrant | DGrantPersistent | DDeny

datatype call =
    CallRequest CreatePermissionRequest
  | CallDecision decision PermissionRequest
  | CallAutoApproveSession string
  | CallSetMode PermissionMode
  | CallGetMode
  | CallSetSkipRequests bool
  | CallSkipRequests

datatype retval =
    RetRequest bool "error option"
  | RetUnit
  | RetMode PermissionMode
  | RetBool bool

text \<open>
  The program points. For \<^verbatim>\<open>Request\<close>: \<open>R_mode\<close> lines 151 to 168, \<open>R_notify\<close> line 171,
  \<open>R_lock\<close> line 174, \<open>R_allow\<close> lines 178 to 181, \<open>R_auto\<close> lines 183 to 187,
  \<open>R_auto_notify\<close> lines 188 to 192, \<open>R_stat\<close> lines 195 to 217, \<open>R_cache\<close> lines 219 to
  230, \<open>R_cache_notify\<close> lines 223 to 227, \<open>R_active\<close> lines 232 to 234, \<open>R_register\<close>
  lines 236 to 238, \<open>R_publish\<close> line 241, \<open>R_select\<close> lines 243 to 248 (about to
  execute the select), \<open>R_parked\<close> the same lines (the select found no case ready and
  the goroutine is parked on both channels), then the deferred calls \<open>R_del\<close>
  (line 238) and \<open>R_unlock\<close> (line 175) with the pair to return.
  For the three decision calls: \<open>D_notify\<close> the publish, \<open>D_get\<close> the table lookup,
  \<open>D_send\<close> the send on the channel found, \<open>D_append\<close> lines 104 to 106 (only
  \<^verbatim>\<open>GrantPersistent\<close>), \<open>D_clear\<close> the last four lines.
\<close>

datatype pc =
    Idle
  | Finished retval
  | R_mode CreatePermissionRequest
  | R_notify CreatePermissionRequest
  | R_lock CreatePermissionRequest
  | R_allow CreatePermissionRequest
  | R_auto CreatePermissionRequest
  | R_auto_notify CreatePermissionRequest
  | R_stat CreatePermissionRequest
  | R_cache CreatePermissionRequest PermissionRequest
  | R_cache_notify CreatePermissionRequest
  | R_active PermissionRequest
  | R_register PermissionRequest
  | R_publish PermissionRequest chan
  | R_select PermissionRequest chan
  | R_parked PermissionRequest chan
  | R_del PermissionRequest retval
  | R_unlock retval
  | D_notify decision PermissionRequest
  | D_get decision PermissionRequest
  | D_send decision PermissionRequest chan
  | D_append PermissionRequest
  | D_clear PermissionRequest
  | A_call call

definition decisionNotification :: "decision \<Rightarrow> string \<Rightarrow> PermissionNotification" where
  "decisionNotification d tc = (case d of DDeny \<Rightarrow> denied tc | _ \<Rightarrow> granted tc)"

definition decisionValue :: "decision \<Rightarrow> bool" where
  "decisionValue d = (case d of DDeny \<Rightarrow> False | _ \<Rightarrow> True)"

definition afterSend :: "decision \<Rightarrow> PermissionRequest \<Rightarrow> pc" where
  "afterSend d p = (case d of DGrantPersistent \<Rightarrow> D_append p | _ \<Rightarrow> D_clear p)"

definition entry :: "call \<Rightarrow> pc" where
  "entry c = (case c of
       CallRequest opts \<Rightarrow> R_mode opts
     | CallDecision d p \<Rightarrow> D_notify d p
     | _ \<Rightarrow> A_call c)"

text \<open>
  One step of a thread at program point \<open>pc\<close>: the new service state and the next
  program point, or \<open>None\<close> when the thread cannot move (it is blocked, or not in a call).
  At \<open>R_select\<close> and at \<open>R_parked\<close> the step is the receive from the channel; the
  \<^verbatim>\<open>ctx.Done()\<close> case of the select and the parking are the events \<open>SelectCtx\<close>,
  \<open>Park\<close> and \<open>CtxEnd\<close> below.
\<close>

fun step_pc :: "env \<Rightarrow> permissionService \<Rightarrow> pc \<Rightarrow> (permissionService \<times> pc) option" where
  "step_pc e s Idle = None"
| "step_pc e s (Finished r) = None"
| "step_pc e s (R_mode opts) =
     (case mode s of
        ModePlan \<Rightarrow>
          if isWriteOperation (Action opts) \<and> \<not> isReadOnlyTool (ToolName opts)
          then Some (s, Finished (RetRequest False
                 (Some (Errorf ''write operations are not allowed in plan mode''))))
          else Some (s, R_notify opts)
      | ModeYolo \<Rightarrow> Some (s, Finished (RetRequest True None))
      | ModeRegular \<Rightarrow> Some (s, R_notify opts))"
| "step_pc e s (R_notify opts) =
     Some (PublishNotification (requested (ToolCallID opts)) s, R_lock opts)"
| "step_pc e s (R_lock opts) =
     (if requestMu s then None else Some (s\<lparr>requestMu := True\<rparr>, R_allow opts))"
| "step_pc e s (R_allow opts) =
     (if allowlisted s opts then Some (s, R_unlock (RetRequest True None))
      else Some (s, R_auto opts))"
| "step_pc e s (R_auto opts) =
     (if autoApprove s (SessionID opts) then Some (s, R_auto_notify opts)
      else Some (s, R_stat opts))"
| "step_pc e s (R_auto_notify opts) =
     Some (PublishNotification (granted (ToolCallID opts)) s, R_unlock (RetRequest True None))"
| "step_pc e s (R_stat opts) =
     Some (s\<lparr>uuidCount := Suc (uuidCount s)\<rparr>, R_cache opts (newPermission e s opts))"
| "step_pc e s (R_cache opts permission) =
     (if cached s permission then Some (s, R_cache_notify opts)
      else Some (s, R_active permission))"
| "step_pc e s (R_cache_notify opts) =
     Some (PublishNotification (granted (ToolCallID opts)) s, R_unlock (RetRequest True None))"
| "step_pc e s (R_active permission) =
     Some (s\<lparr>activeRequest := Some permission\<rparr>, R_register permission)"
| "step_pc e s (R_register permission) =
     (let respCh = nextChan s
      in Some (s\<lparr>chans := (chans s)(respCh := None), nextChan := Suc respCh,
                 pendingRequests := (pendingRequests s)(ID permission \<mapsto> respCh)\<rparr>,
               R_publish permission respCh))"
| "step_pc e s (R_publish permission respCh) =
     Some (Publish permission s, R_select permission respCh)"
| "step_pc e s (R_select permission respCh) =
     (case chans s respCh of
        None \<Rightarrow> None
      | Some g \<Rightarrow> Some (s\<lparr>chans := (chans s)(respCh := None)\<rparr>,
                        R_del permission (RetRequest g None)))"
| "step_pc e s (R_parked permission respCh) =
     (case chans s respCh of
        None \<Rightarrow> None
      | Some g \<Rightarrow> Some (s\<lparr>chans := (chans s)(respCh := None)\<rparr>,
                        R_del permission (RetRequest g None)))"
| "step_pc e s (R_del permission r) =
     Some (s\<lparr>pendingRequests := (pendingRequests s)(ID permission := None)\<rparr>, R_unlock r)"
| "step_pc e s (R_unlock r) = Some (s\<lparr>requestMu := False\<rparr>, Finished r)"
| "step_pc e s (D_notify d permission) =
     Some (PublishNotification (decisionNotification d (ToolCallID permission)) s,
           D_get d permission)"
| "step_pc e s (D_get d permission) =
     (case pendingRequests s (ID permission) of
        Some respCh \<Rightarrow> Some (s, D_send d permission respCh)
      | None \<Rightarrow> Some (s, afterSend d permission))"
| "step_pc e s (D_send d permission respCh) =
     (case chans s respCh of
        None \<Rightarrow> Some (s\<lparr>chans := (chans s)(respCh := Some (decisionValue d))\<rparr>,
                      afterSend d permission)
      | Some _ \<Rightarrow> None)"
| "step_pc e s (D_append permission) =
     Some (s\<lparr>sessionPermissions := sessionPermissions s @ [permission]\<rparr>, D_clear permission)"
| "step_pc e s (D_clear permission) = Some (clearActive permission s, Finished RetUnit)"
| "step_pc e s (A_call c) =
     (case c of
        CallAutoApproveSession sessionID \<Rightarrow> Some (AutoApproveSession sessionID s, Finished RetUnit)
      | CallSetMode m \<Rightarrow> Some (SetMode m s, Finished RetUnit)
      | CallGetMode \<Rightarrow> Some (s, Finished (RetMode (GetMode s)))
      | CallSetSkipRequests skip \<Rightarrow> Some (SetSkipRequests skip s, Finished RetUnit)
      | CallSkipRequests \<Rightarrow> Some (s, Finished (RetBool (SkipRequests s)))
      | _ \<Rightarrow> None)"

text \<open>A thread running alone for at most \<open>n\<close> steps, until it returns or blocks.\<close>

fun exec :: "nat \<Rightarrow> env \<Rightarrow> permissionService \<Rightarrow> pc \<Rightarrow> permissionService \<times> pc" where
  "exec 0 e s pc = (s, pc)"
| "exec (Suc n) e s pc =
     (case step_pc e s pc of None \<Rightarrow> (s, pc) | Some (s', pc') \<Rightarrow> exec n e s' pc')"

text \<open>
  The whole system: the service, each thread's program point, and each thread's
  context (\<open>None\<close>: not done; otherwise what \<^verbatim>\<open>ctx.Err()\<close> returns).
\<close>

record system =
  svc :: permissionService
  pcs :: "tid \<Rightarrow> pc"
  ctxs :: "tid \<Rightarrow> ctx_error option"

datatype event =
    Call tid call
  | Step tid
  | CtxEnd tid ctx_error
  | SelectCtx tid
  | Park tid

definition atRest :: "pc \<Rightarrow> bool" where
  "atRest p = (case p of Idle \<Rightarrow> True | Finished _ \<Rightarrow> True | _ \<Rightarrow> False)"

text \<open>
  \<open>Call\<close>: a thread not in a call enters one, with a fresh context. \<open>Step\<close>: a thread
  takes its next step. \<open>CtxEnd\<close>: a thread's context ends (cancelled, or its deadline
  passes).

  The select of line 243, as Go runs it. A goroutine that executes the select takes a
  case that is ready: the receive (\<open>Step\<close>) when the channel holds a decision, the
  \<^verbatim>\<open>ctx.Done()\<close> case (\<open>SelectCtx\<close>) when the context is done, either of them when
  both are. When neither is ready it parks (\<open>Park\<close>). A parked goroutine does not
  choose again: the first event that makes a case ready decides. A context that ends
  while the channel is still empty commits the goroutine to the \<^verbatim>\<open>ctx.Done()\<close> case
  (\<open>CtxEnd\<close> moves it on); a decision sent while it is parked commits it to the receive,
  and a context that ends after that changes nothing.
\<close>

fun fire :: "env \<Rightarrow> system \<Rightarrow> event \<Rightarrow> system option" where
  "fire e w (Call t c) =
     (if atRest (pcs w t)
      then Some (w\<lparr>pcs := (pcs w)(t := entry c), ctxs := (ctxs w)(t := None)\<rparr>)
      else None)"
| "fire e w (Step t) =
     (case step_pc e (svc w) (pcs w t) of
        None \<Rightarrow> None
      | Some (s', pc') \<Rightarrow> Some (w\<lparr>svc := s', pcs := (pcs w)(t := pc')\<rparr>))"
| "fire e w (CtxEnd t err) =
     (case ctxs w t of
        Some _ \<Rightarrow> None
      | None \<Rightarrow>
          (case pcs w t of
             R_parked permission respCh \<Rightarrow>
               (case chans (svc w) respCh of
                  None \<Rightarrow>
                    Some (w\<lparr>pcs := (pcs w)(t := R_del permission
                                        (RetRequest False (Some (ContextError err)))),
                            ctxs := (ctxs w)(t := Some err)\<rparr>)
                | Some _ \<Rightarrow> Some (w\<lparr>ctxs := (ctxs w)(t := Some err)\<rparr>))
           | _ \<Rightarrow> Some (w\<lparr>ctxs := (ctxs w)(t := Some err)\<rparr>)))"
| "fire e w (SelectCtx t) =
     (case pcs w t of
        R_select permission respCh \<Rightarrow>
          (case ctxs w t of
             Some err \<Rightarrow>
               Some (w\<lparr>pcs := (pcs w)(t := R_del permission
                                   (RetRequest False (Some (ContextError err))))\<rparr>)
           | None \<Rightarrow> None)
      | _ \<Rightarrow> None)"
| "fire e w (Park t) =
     (case pcs w t of
        R_select permission respCh \<Rightarrow>
          (case chans (svc w) respCh of
             None \<Rightarrow>
               (case ctxs w t of
                  None \<Rightarrow> Some (w\<lparr>pcs := (pcs w)(t := R_parked permission respCh)\<rparr>)
                | Some _ \<Rightarrow> None)
           | Some _ \<Rightarrow> None)
      | _ \<Rightarrow> None)"

fun run :: "env \<Rightarrow> system \<Rightarrow> event list \<Rightarrow> system option" where
  "run e w [] = Some w"
| "run e w (ev # evs) = (case fire e w ev of None \<Rightarrow> None | Some w' \<Rightarrow> run e w' evs)"

definition boot :: "string \<Rightarrow> bool \<Rightarrow> string list \<Rightarrow> system" where
  "boot wd skip allowed =
     \<lparr>svc = NewPermissionService wd skip allowed, pcs = (\<lambda>_. Idle), ctxs = (\<lambda>_. None)\<rparr>"

text \<open>
  The program points at which a thread holds \<^verbatim>\<open>requestMu\<close>: from the return of
  \<^verbatim>\<open>Lock\<close> (line 174) to the deferred \<^verbatim>\<open>Unlock\<close>.
\<close>

definition holdsLock :: "pc \<Rightarrow> bool" where
  "holdsLock p =
     (case p of
        R_allow _ \<Rightarrow> True | R_auto _ \<Rightarrow> True | R_auto_notify _ \<Rightarrow> True | R_stat _ \<Rightarrow> True
      | R_cache _ _ \<Rightarrow> True | R_cache_notify _ \<Rightarrow> True | R_active _ \<Rightarrow> True
      | R_register _ \<Rightarrow> True | R_publish _ _ \<Rightarrow> True | R_select _ _ \<Rightarrow> True
      | R_parked _ _ \<Rightarrow> True | R_del _ _ \<Rightarrow> True | R_unlock _ \<Rightarrow> True
      | _ \<Rightarrow> False)"

section \<open>Invariants of the concurrent system\<close>

text \<open>
  Mutual exclusion: whenever a thread is between \<^verbatim>\<open>Lock\<close> and the deferred \<^verbatim>\<open>Unlock\<close>,
  \<^verbatim>\<open>requestMu\<close> is locked, and no second thread is there.
\<close>

definition lockInv :: "system \<Rightarrow> bool" where
  "lockInv w =
     ((\<forall>t. holdsLock (pcs w t) \<longrightarrow> requestMu (svc w)) \<and>
      (\<forall>t t'. holdsLock (pcs w t) \<and> holdsLock (pcs w t') \<longrightarrow> t = t'))"

text \<open>
  The table entry a thread has registered and not yet deleted (the key and the
  channel), and the request a thread has synthesized.
\<close>

definition registered :: "pc \<Rightarrow> (string \<times> chan) option" where
  "registered p =
     (case p of
        R_publish permission respCh \<Rightarrow> Some (ID permission, respCh)
      | R_select permission respCh \<Rightarrow> Some (ID permission, respCh)
      | R_parked permission respCh \<Rightarrow> Some (ID permission, respCh)
      | _ \<Rightarrow> None)"

definition permOf :: "pc \<Rightarrow> PermissionRequest option" where
  "permOf p =
     (case p of
        R_cache _ permission \<Rightarrow> Some permission
      | R_active permission \<Rightarrow> Some permission
      | R_register permission \<Rightarrow> Some permission
      | R_publish permission _ \<Rightarrow> Some permission
      | R_select permission _ \<Rightarrow> Some permission
      | R_parked permission _ \<Rightarrow> Some permission
      | R_del permission _ \<Rightarrow> Some permission
      | _ \<Rightarrow> None)"



text \<open>
  The ID \<open>k\<close> is spent: it was drawn, it has no table entry, and no thread holds a
  request with it.
\<close>

definition spent :: "env \<Rightarrow> string \<Rightarrow> system \<Rightarrow> bool" where
  "spent e k w =
     ((\<exists>n < uuidCount (svc w). k = uuid_New e n) \<and>
      pendingRequests (svc w) k = None \<and>
      (\<forall>t p. permOf (pcs w t) = Some p \<longrightarrow> ID p \<noteq> k))"


text \<open>
  The program points of a \<^verbatim>\<open>Request\<close> call for \<open>opts\<close> that is past the mode gate and
  ends on a fast path, the request it synthesizes matching the cached record \<open>p\<close>; and
  a bound on the steps such a call still has to take.
\<close>

definition fastTrack :: "PermissionRequest \<Rightarrow> CreatePermissionRequest \<Rightarrow> pc \<Rightarrow> bool" where
  "fastTrack p opts x =
     (case x of
        R_notify y \<Rightarrow> y = opts | R_lock y \<Rightarrow> y = opts | R_allow y \<Rightarrow> y = opts
      | R_auto y \<Rightarrow> y = opts | R_auto_notify y \<Rightarrow> y = opts | R_stat y \<Rightarrow> y = opts
      | R_cache y q \<Rightarrow> y = opts \<and> samePermission p q
      | R_cache_notify y \<Rightarrow> y = opts
      | R_unlock r \<Rightarrow> r = RetRequest True None
      | Finished r \<Rightarrow> r = RetRequest True None
      | _ \<Rightarrow> False)"

definition stepsLeft :: "pc \<Rightarrow> nat" where
  "stepsLeft x =
     (case x of
        R_notify _ \<Rightarrow> 8 | R_lock _ \<Rightarrow> 7 | R_allow _ \<Rightarrow> 6 | R_auto _ \<Rightarrow> 5
      | R_stat _ \<Rightarrow> 4 | R_cache _ _ \<Rightarrow> 3 | R_cache_notify _ \<Rightarrow> 2
      | R_auto_notify _ \<Rightarrow> 2 | R_unlock _ \<Rightarrow> 1
      | _ \<Rightarrow> 0)"

text \<open>
  Thread \<open>t\<close> runs such a call, \<open>k\<close> of its steps taken since the mode gate, in a
  service with working directory \<open>wd\<close> whose cache holds \<open>p\<close>.
\<close>

definition approving ::
  "PermissionRequest \<Rightarrow> CreatePermissionRequest \<Rightarrow> tid \<Rightarrow> string \<Rightarrow> nat \<Rightarrow> system \<Rightarrow> bool" where
  "approving p opts t wd k w =
     (fastTrack p opts (pcs w t) \<and> p \<in> set (sessionPermissions (svc w)) \<and>
      workingDir (svc w) = wd \<and> stepsLeft (pcs w t) + k \<le> 8)"

text \<open>How a blocked or returned \<^verbatim>\<open>Request\<close> shows as a program point.\<close>

definition pcOfRequest :: "CreatePermissionRequest \<Rightarrow> request_outcome \<Rightarrow> pc" where
  "pcOfRequest opts out =
     (case out of
        Returned g err \<Rightarrow> Finished (RetRequest g err)
      | AwaitsLock \<Rightarrow> R_lock opts
      | AwaitsDecision permission respCh \<Rightarrow> R_select permission respCh)"

definition pcOfDecision :: "decision \<Rightarrow> PermissionRequest \<Rightarrow> decision_outcome \<Rightarrow> pc" where
  "pcOfDecision d permission out =
     (case out of
        Completed \<Rightarrow> Finished RetUnit
      | AwaitsSend respCh \<Rightarrow> D_send d permission respCh)"

section \<open>Example scenarios\<close>

text \<open>
  A small file system: the directory \<^verbatim>\<open>/repo\<close>, the file \<^verbatim>\<open>/repo/main.go\<close>, and, seen from
  the process's current directory, the file \<^verbatim>\<open>main.go\<close> and the directory \<^verbatim>\<open>.\<close>;
  \<^verbatim>\<open>filepath.Dir\<close> is given at these paths.
\<close>

definition exampleEnv :: env where
  "exampleEnv =
     \<lparr>os_Stat = (\<lambda>p. if p = ''/repo'' \<or> p = ''.'' then Some (FileInfo True)
                      else if p = ''/repo/main.go'' \<or> p = ''main.go'' then Some (FileInfo False)
                      else None),
      filepath_Dir = (\<lambda>p. if p = ''/repo/main.go'' then ''/repo''
                           else if p = ''main.go'' then ''.'' else p),
      uuid_New = (\<lambda>n. ''uuid-'' @ replicate n (CHR ''i''))\<rparr>"

definition bashExecute :: "string \<Rightarrow> CreatePermissionRequest" where
  "bashExecute path =
     \<lparr>SessionID = ''s1'', ToolCallID = ''tc1'', ToolName = ''bash'',
      Description = ''run'', Action = ''execute'', Params = ''ls'', Path = path\<rparr>"

text \<open>
  The request the service synthesizes for \<open>bashExecute path\<close> when \<open>n\<close> UUIDs have been
  drawn and the path resolves to itself.
\<close>

definition bashPrompt :: "string \<Rightarrow> nat \<Rightarrow> PermissionRequest" where
  "bashPrompt path n =
     \<lparr>SessionID = ''s1'', ToolCallID = ''tc1'', ToolName = ''bash'',
      Description = ''run'', Action = ''execute'', Params = ''ls'', Path = path,
      ID = ''uuid-'' @ replicate n (CHR ''i'')\<rparr>"

text \<open>
  A service in which every fast path would approve \<open>bashExecute ''/repo''\<close>: the tool is
  on the allowlist, the session is auto-approved and the cache holds a matching grant.
\<close>

definition generousService :: "PermissionMode \<Rightarrow> permissionService" where
  "generousService m =
     (NewPermissionService ''/repo'' False [''bash''])
       \<lparr>mode := m,
        autoApproveSessions := [''s1'' \<mapsto> True],
        sessionPermissions := [bashPrompt ''/repo'' 0]\<rparr>"

text \<open>
  Thread \<open>t\<close> calls \<^verbatim>\<open>Request\<close> and runs alone up to the select (ten steps when no fast
  path hits); thread \<open>t\<close> makes a decision call and runs it to its end; a blocked
  \<^verbatim>\<open>Request\<close> receives its decision and returns.
\<close>

definition promptEvents :: "tid \<Rightarrow> CreatePermissionRequest \<Rightarrow> event list" where
  "promptEvents t opts =
     [Call t (CallRequest opts), Step t, Step t, Step t, Step t, Step t, Step t, Step t,
      Step t, Step t, Step t]"

definition decideEvents :: "tid \<Rightarrow> decision \<Rightarrow> PermissionRequest \<Rightarrow> event list" where
  "decideEvents t d permission =
     (Call t (CallDecision d permission) #
      (case d of
         DGrantPersistent \<Rightarrow> [Step t, Step t, Step t, Step t, Step t]
       | _ \<Rightarrow> [Step t, Step t, Step t, Step t]))"

definition returnEvents :: "tid \<Rightarrow> event list" where
  "returnEvents t = [Step t, Step t, Step t]"

text \<open>
  The service with the prompt for \<open>bashExecute ''/repo''\<close> pending, and the same service
  after the caller's context was cancelled.
\<close>

definition promptedService :: permissionService where
  "promptedService =
     fst (Request exampleEnv (NewPermissionService ''/repo'' False []) (bashExecute ''/repo''))"

definition cancelledService :: permissionService where
  "cancelledService = fst (Request_cancelled promptedService (bashPrompt ''/repo'' 0) Canceled)"

text \<open>
  Runs of the whole system. \<open>lateAppend\<close>: thread 2 calls \<^verbatim>\<open>GrantPersistent\<close> and is
  preempted right after its send; thread 1 receives and returns. \<open>reprompt\<close>: the same,
  and then thread 1 calls \<^verbatim>\<open>Request\<close> again with the same arguments.
  \<open>appendPoint\<close>: thread 1 waits for its decision and thread 2, in \<^verbatim>\<open>GrantPersistent\<close>,
  is about to append. \<open>twoCallers\<close>: thread 1 waits for its decision while thread 2
  calls \<^verbatim>\<open>Request\<close>. \<open>atCheck\<close>: thread 1 has taken the lock and is about to check
  the allowlist. \<open>parkedCaller\<close>: thread 1 is parked in its select.
  \<open>waitingRepeat\<close>: the persistent grant for \<^verbatim>\<open>/repo\<close> is complete, thread 3 waits
  for a decision on \<^verbatim>\<open>/tmp\<close>, and thread 1 asks for \<^verbatim>\<open>/repo\<close> again.
\<close>

definition lateAppend :: "system option" where
  "lateAppend =
     run exampleEnv (boot ''/repo'' False [])
       (promptEvents 1 (bashExecute ''/repo'') @
        [Call 2 (CallDecision DGrantPersistent (bashPrompt ''/repo'' 0)), Step 2, Step 2, Step 2] @
        returnEvents 1)"

definition twoCallers :: "system option" where
  "twoCallers =
     run exampleEnv (boot ''/repo'' False [])
       (promptEvents 1 (bashExecute ''/repo'') @
        [Call 2 (CallRequest (bashExecute ''/tmp'')), Step 2, Step 2])"

definition atCheck :: "system option" where
  "atCheck =
     run exampleEnv (boot ''/repo'' False [])
       [Call 1 (CallRequest (bashExecute ''/repo'')), Step 1, Step 1, Step 1]"

definition parkedCaller :: "system option" where
  "parkedCaller =
     run exampleEnv (boot ''/repo'' False [])
       (promptEvents 1 (bashExecute ''/repo'') @ [Park 1])"

definition reprompt :: "system option" where
  "reprompt =
     run exampleEnv (boot ''/repo'' False [])
       (promptEvents 1 (bashExecute ''/repo'') @
        [Call 2 (CallDecision DGrantPersistent (bashPrompt ''/repo'' 0)), Step 2, Step 2, Step 2] @
        returnEvents 1 @
        promptEvents 1 (bashExecute ''/repo''))"

definition appendPoint :: "system option" where
  "appendPoint =
     run exampleEnv (boot ''/repo'' False [])
       (promptEvents 1 (bashExecute ''/repo'') @
        [Call 2 (CallDecision DGrantPersistent (bashPrompt ''/repo'' 0)), Step 2, Step 2, Step 2])"

definition waitingRepeat :: "system option" where
  "waitingRepeat =
     run exampleEnv (boot ''/repo'' False [])
       (promptEvents 1 (bashExecute ''/repo'') @
        decideEvents 2 DGrantPersistent (bashPrompt ''/repo'' 0) @
        returnEvents 1 @
        promptEvents 3 (bashExecute ''/tmp'') @
        [Call 1 (CallRequest (bashExecute ''/repo'')), Step 1, Step 1])"

section \<open>Steps and events\<close>

lemmas step_defs = holdsLock_def PublishNotification_def Publish_def clearActive_def afterSend_def
        AutoApproveSession_def SetMode_def SetSkipRequests_def Let_def

lemmas step_splits = PermissionMode.splits if_splits option.splits decision.splits call.splits

text \<open>What one step of a thread does to each part of the service.\<close>

lemma step_pc_lock:
  assumes "step_pc e s p = Some (s', p')"
  shows "(holdsLock p \<and> holdsLock p' \<longrightarrow> requestMu s' = requestMu s) \<and>
         (\<not> holdsLock p \<and> \<not> holdsLock p' \<longrightarrow> requestMu s' = requestMu s) \<and>
         (\<not> holdsLock p \<and> holdsLock p' \<longrightarrow> \<not> requestMu s \<and> requestMu s') \<and>
         (holdsLock p \<and> \<not> holdsLock p' \<longrightarrow> \<not> requestMu s')"
  using assms by (cases p) (auto simp: step_defs split: step_splits)

lemma step_pc_takes_lock:
  assumes "step_pc e s p = Some (s', p')" and "\<not> holdsLock p" and "holdsLock p'"
  shows "\<exists>opts. p = R_lock opts \<and> p' = R_allow opts \<and> \<not> requestMu s \<and>
           s' = s\<lparr>requestMu := True\<rparr>"
  using assms by (cases p) (auto simp: step_defs split: step_splits)

lemma step_pc_returns:
  assumes "step_pc e s p = Some (s', Finished (RetRequest g err))"
  shows "(\<exists>opts. p = R_mode opts) \<or>
         (p = R_unlock (RetRequest g err) \<and> s' = s\<lparr>requestMu := False\<rparr>)"
  using assms by (cases p) (auto simp: step_defs split: step_splits)

lemma step_pc_independent:
  assumes "\<not> holdsLock p"
  shows "map_option snd (step_pc e
           (s\<lparr>allowedTools := a, autoApproveSessions := b, sessionPermissions := c\<rparr>) p) =
         map_option snd (step_pc e s p)"
  using assms
  by (cases p)
     (auto simp: step_defs decisionNotification_def GetMode_def SkipRequests_def
        split: step_splits)

lemma step_pc_requests:
  assumes "step_pc e s p = Some (s', p')"
  shows "(\<exists>q c. p = R_publish q c \<and> requests s' = requests s @ [(CreatedEvent, q)]) \<or>
         requests s' = requests s"
  using assms by (cases p) (auto simp: step_defs split: step_splits)





lemma step_pc_uuid:
  assumes "step_pc e s p = Some (s', p')"
  shows "uuidCount s \<le> uuidCount s'"
  using assms by (cases p) (auto simp: step_defs split: step_splits)

lemma step_pc_permOf:
  assumes "step_pc e s p = Some (s', p')" and "permOf p' = Some q"
  shows "permOf p = Some q \<or>
         (ID q = uuid_New e (uuidCount s) \<and> uuidCount s' = Suc (uuidCount s))"
  using assms
  by (cases p) (auto simp: step_defs permOf_def newPermission_def split: step_splits)

lemma step_pc_cache:
  assumes "step_pc e s p = Some (s', p')"
  shows "set (sessionPermissions s) \<subseteq> set (sessionPermissions s')"
  using assms by (cases p) (auto simp: step_defs split: step_splits)

lemma step_pc_workingDir:
  assumes "step_pc e s p = Some (s', p')"
  shows "workingDir s' = workingDir s"
  using assms by (cases p) (auto simp: step_defs split: step_splits)

lemma step_pc_chans:
  assumes "step_pc e s p = Some (s', p')" and "chans s c = None" and "chans s' c = Some g"
  shows "\<exists>d q. p = D_send d q c \<and> g = decisionValue d"
  using assms by (cases p) (auto simp: step_defs split: step_splits)

lemma step_pc_new_entry:
  assumes "step_pc e s p = Some (s', p')" and "pendingRequests s k = None"
    and "pendingRequests s' k = Some c"
  shows "\<exists>q. p = R_register q \<and> ID q = k"
  using assms by (cases p) (auto simp: step_defs split: step_splits)

lemma entry_plain: "\<not> holdsLock (entry c)" "registered (entry c) = None" "permOf (entry c) = None"
  by (cases c; simp add: entry_def holdsLock_def registered_def permOf_def)+

text \<open>The events, one rule per kind.\<close>

lemma fire_SelectCtx:
  assumes "fire e w (SelectCtx t) = Some w'"
  obtains p c err where "pcs w t = R_select p c" and "ctxs w t = Some err"
    and "w' = w\<lparr>pcs := (pcs w)(t := R_del p (RetRequest False (Some (ContextError err))))\<rparr>"
  using assms by (cases "pcs w t"; cases "ctxs w t") simp_all

lemma fire_Park:
  assumes "fire e w (Park t) = Some w'"
  obtains p c where "pcs w t = R_select p c" and "ctxs w t = None"
    and "chans (svc w) c = None" and "w' = w\<lparr>pcs := (pcs w)(t := R_parked p c)\<rparr>"
  using assms by (cases "pcs w t"; cases "ctxs w t") (auto split: option.splits)

lemma fire_Step:
  assumes "fire e w (Step t) = Some w'"
  obtains s' p' where "step_pc e (svc w) (pcs w t) = Some (s', p')"
    and "w' = w\<lparr>svc := s', pcs := (pcs w)(t := p')\<rparr>"
  using assms by (auto split: option.splits)

lemma fire_Call:
  assumes "fire e w (Call t c) = Some w'"
  shows "atRest (pcs w t)" and "w' = w\<lparr>pcs := (pcs w)(t := entry c), ctxs := (ctxs w)(t := None)\<rparr>"
  using assms by (auto split: if_splits)

lemma fire_CtxEnd:
  assumes "fire e w (CtxEnd t err) = Some w'"
  obtains
    (commit) p c where "pcs w t = R_parked p c" and "chans (svc w) c = None"
      and "ctxs w t = None"
      and "w' = w\<lparr>pcs := (pcs w)(t := R_del p (RetRequest False (Some (ContextError err)))),
                   ctxs := (ctxs w)(t := Some err)\<rparr>"
  | (plain) "ctxs w t = None" and "w' = w\<lparr>ctxs := (ctxs w)(t := Some err)\<rparr>"
      and "\<And>p c. pcs w t = R_parked p c \<Longrightarrow> chans (svc w) c \<noteq> None"
proof (cases "ctxs w t")
  case (Some x)
  with assms show ?thesis by simp
next
  case None
  show ?thesis
  proof (cases "\<exists>p c. pcs w t = R_parked p c \<and> chans (svc w) c = None")
    case True
    then obtain p c where pc: "pcs w t = R_parked p c" "chans (svc w) c = None" by blast
    with assms None have "w' = w\<lparr>pcs := (pcs w)(t := R_del p (RetRequest False (Some (ContextError err)))),
                   ctxs := (ctxs w)(t := Some err)\<rparr>"
      by simp
    with pc None show ?thesis by (rule commit)
  next
    case False
    with assms None have "w' = w\<lparr>ctxs := (ctxs w)(t := Some err)\<rparr>"
      by (cases "pcs w t") (auto split: option.splits)
    with None show ?thesis using False by (intro plain) auto
  qed
qed

lemma fire_cases [consumes 1, case_names Call Step Commit CtxEnd SelectCtx Park]:
  assumes "fire e w ev = Some w'"
  obtains
    (Call) t c where "ev = Call t c" and "atRest (pcs w t)"
      and "w' = w\<lparr>pcs := (pcs w)(t := entry c), ctxs := (ctxs w)(t := None)\<rparr>"
  | (Step) t s' p' where "ev = Step t" and "step_pc e (svc w) (pcs w t) = Some (s', p')"
      and "w' = w\<lparr>svc := s', pcs := (pcs w)(t := p')\<rparr>"
  | (Commit) t p c err where "ev = CtxEnd t err" and "pcs w t = R_parked p c"
      and "chans (svc w) c = None" and "ctxs w t = None"
      and "w' = w\<lparr>pcs := (pcs w)(t := R_del p (RetRequest False (Some (ContextError err)))),
                   ctxs := (ctxs w)(t := Some err)\<rparr>"
  | (CtxEnd) t err where "ev = CtxEnd t err" and "ctxs w t = None"
      and "w' = w\<lparr>ctxs := (ctxs w)(t := Some err)\<rparr>"
  | (SelectCtx) t p c err where "ev = SelectCtx t" and "pcs w t = R_select p c"
      and "ctxs w t = Some err"
      and "w' = w\<lparr>pcs := (pcs w)(t := R_del p (RetRequest False (Some (ContextError err))))\<rparr>"
  | (Park) t p c where "ev = Park t" and "pcs w t = R_select p c" and "ctxs w t = None"
      and "chans (svc w) c = None" and "w' = w\<lparr>pcs := (pcs w)(t := R_parked p c)\<rparr>"
proof (cases ev)
  case (Call t c)
  from assms [unfolded Call] have "atRest (pcs w t)"
    and "w' = w\<lparr>pcs := (pcs w)(t := entry c), ctxs := (ctxs w)(t := None)\<rparr>"
    by (rule fire_Call)+
  with Call show ?thesis by (rule that(1))
next
  case (Step t)
  from assms [unfolded Step]
  obtain s' p' where "step_pc e (svc w) (pcs w t) = Some (s', p')"
    and "w' = w\<lparr>svc := s', pcs := (pcs w)(t := p')\<rparr>"
    by (rule fire_Step)
  with Step show ?thesis by (rule that(2))
next
  case (CtxEnd t err)
  from assms [unfolded CtxEnd] show ?thesis
  proof (cases rule: fire_CtxEnd)
    case (commit p c)
    with CtxEnd show ?thesis by (intro that(3))
  next
    case plain
    with CtxEnd show ?thesis by (intro that(4))
  qed
next
  case (SelectCtx t)
  from assms [unfolded SelectCtx]
  obtain p c err where "pcs w t = R_select p c" and "ctxs w t = Some err"
    and "w' = w\<lparr>pcs := (pcs w)(t := R_del p (RetRequest False (Some (ContextError err))))\<rparr>"
    by (rule fire_SelectCtx)
  with SelectCtx show ?thesis by (rule that(5))
next
  case (Park t)
  from assms [unfolded Park]
  obtain p c where "pcs w t = R_select p c" and "ctxs w t = None"
    and "chans (svc w) c = None" and "w' = w\<lparr>pcs := (pcs w)(t := R_parked p c)\<rparr>"
    by (rule fire_Park)
  with Park show ?thesis by (rule that(6))
qed

text \<open>
  For the invariants, an event is a step of one thread, or it moves one thread between
  two program points that hold the same lock, table entry and request (or it moves none).
\<close>

lemma fire_shape [consumes 1, case_names Step Move]:
  assumes "fire e w ev = Some w'"
  obtains
    (Step) t s' p' where "ev = Step t" and "step_pc e (svc w) (pcs w t) = Some (s', p')"
      and "svc w' = s'" and "pcs w' = (pcs w)(t := p')"
  | (Move) t p' where "\<forall>u. ev \<noteq> Step u" and "svc w' = svc w" and "pcs w' = (pcs w)(t := p')"
      and "holdsLock p' = holdsLock (pcs w t)"
      and "registered p' = None \<or> registered p' = registered (pcs w t)"
      and "permOf p' = None \<or> permOf p' = permOf (pcs w t)"
  using assms
proof (cases rule: fire_cases)
  case (Call t c)
  from Call(2) have "\<not> holdsLock (pcs w t)"
    by (cases "pcs w t") (simp_all add: atRest_def holdsLock_def)
  with Call show ?thesis by (intro Move [of t "entry c"]) (simp_all add: entry_plain)
next
  case (Step t s' p')
  then show ?thesis by (intro that(1) [of t s' p']) simp_all
next
  case (Commit t p c err)
  then show ?thesis
    by (intro Move [of t "R_del p (RetRequest False (Some (ContextError err)))"])
       (simp_all add: holdsLock_def registered_def permOf_def)
next
  case (CtxEnd t err)
  then show ?thesis by (intro Move [of t "pcs w t"]) simp_all
next
  case (SelectCtx t p c err)
  then show ?thesis
    by (intro Move [of t "R_del p (RetRequest False (Some (ContextError err)))"])
       (simp_all add: holdsLock_def registered_def permOf_def)
next
  case (Park t p c)
  then show ?thesis
    by (intro Move [of t "R_parked p c"]) (simp_all add: holdsLock_def registered_def permOf_def)
qed

lemma fire_publishes:
  assumes "fire e w ev = Some w'" and "requests (svc w') \<noteq> requests (svc w)"
  shows "\<exists>t p c. ev = Step t \<and> pcs w t = R_publish p c \<and>
           requests (svc w') = requests (svc w) @ [(CreatedEvent, p)]"
  using assms(1)
proof (cases rule: fire_shape)
  case (Step t s' p')
  from step_pc_requests [OF Step(2)] assms(2) show ?thesis by (auto simp: Step(1,3))
next
  case (Move t p')
  with assms(2) show ?thesis by simp
qed

lemma fire_leaves_wait:
  assumes "fire e w ev = Some w'"
    and "pcs w t = R_select p c \<or> pcs w t = R_parked p c"
    and "pcs w' t \<noteq> R_select p c" and "pcs w' t \<noteq> R_parked p c"
  shows "(\<exists>g. ev = Step t \<and> chans (svc w) c = Some g \<and> pcs w' t = R_del p (RetRequest g None)) \<or>
         (\<exists>err. ev = SelectCtx t \<and> pcs w t = R_select p c \<and> ctxs w t = Some err \<and>
            pcs w' t = R_del p (RetRequest False (Some (ContextError err)))) \<or>
         (\<exists>err. ev = CtxEnd t err \<and> pcs w t = R_parked p c \<and> chans (svc w) c = None \<and>
            pcs w' t = R_del p (RetRequest False (Some (ContextError err))))"
  using assms(1)
proof (cases rule: fire_cases)
  case (Call u c')
  with assms(2-4) show ?thesis by (cases "u = t") (auto simp: atRest_def)
next
  case (Step u s' p')
  from assms(2-4) Step(3) have "u = t" by (cases "u = t") auto
  with Step assms(2) show ?thesis by (auto split: option.splits)
next
  case (Commit u q d err)
  from assms(2-4) Commit(5) have "u = t" by (cases "u = t") auto
  with Commit assms(2) show ?thesis by auto
next
  case (CtxEnd u err)
  with assms(2-4) show ?thesis by auto
next
  case (SelectCtx u q d err)
  from assms(2-4) SelectCtx(4) have "u = t" by (cases "u = t") auto
  with SelectCtx assms(2) show ?thesis by auto
next
  case (Park u q d)
  from assms(2-4) Park(5) have "u = t" by (cases "u = t") auto
  with Park assms(2-4) show ?thesis by auto
qed

lemma fire_delivers:
  assumes "fire e w ev = Some w'" and "chans (svc w) c = None" and "chans (svc w') c = Some g"
  shows "\<exists>t d q. ev = Step t \<and> pcs w t = D_send d q c \<and> g = decisionValue d"
  using assms(1)
proof (cases rule: fire_shape)
  case (Step t s' p')
  from assms(3) have "chans s' c = Some g" by (simp add: Step(3))
  from step_pc_chans [OF Step(2) assms(2) this] show ?thesis by (auto simp: Step(1))
next
  case (Move t p')
  with assms(2,3) show ?thesis by simp
qed

lemma run_invariant:
  assumes "\<And>w ev w'. P w \<Longrightarrow> fire e w ev = Some w' \<Longrightarrow> P w'"
    and "P w0" and "run e w0 evs = Some w"
  shows "P w"
  using assms(2,3)
proof (induction evs arbitrary: w0)
  case Nil
  then show ?case by simp
next
  case (Cons ev evs)
  then obtain w1 where "fire e w0 ev = Some w1" and "run e w1 evs = Some w"
    by (auto split: option.splits)
  with Cons.IH [of w1] assms(1) [of w0 ev w1] Cons.prems(1) show ?case by blast
qed


section \<open>The invariants hold in every reachable state\<close>

lemma lockInv_update:
  assumes "lockInv w" and "pcs w' = (pcs w)(t := p')"
    and "holdsLock (pcs w t) \<and> holdsLock p' \<longrightarrow> requestMu (svc w') = requestMu (svc w)"
    and "\<not> holdsLock (pcs w t) \<and> \<not> holdsLock p' \<longrightarrow> requestMu (svc w') = requestMu (svc w)"
    and "\<not> holdsLock (pcs w t) \<and> holdsLock p' \<longrightarrow> \<not> requestMu (svc w) \<and> requestMu (svc w')"
    and "holdsLock (pcs w t) \<and> \<not> holdsLock p' \<longrightarrow> \<not> requestMu (svc w')"
  shows "lockInv w'"
proof (cases "holdsLock (pcs w t)")
  case True
  then have only: "\<And>u. holdsLock (pcs w u) \<Longrightarrow> u = t"
    using assms(1) by (auto simp: lockInv_def)
  have mu: "requestMu (svc w)" using True assms(1) by (auto simp: lockInv_def)
  show ?thesis
  proof (cases "holdsLock p'")
    case True
    with \<open>holdsLock (pcs w t)\<close> assms(3) mu have "requestMu (svc w')" by simp
    then show ?thesis using only by (auto simp: lockInv_def assms(2))
  next
    case False
    then show ?thesis using only by (auto simp: lockInv_def assms(2))
  qed
next
  case False
  show ?thesis
  proof (cases "holdsLock p'")
    case True
    with False assms(5) have "\<not> requestMu (svc w)" and "requestMu (svc w')" by simp_all
    then have "\<And>u. \<not> holdsLock (pcs w u)" using assms(1) by (auto simp: lockInv_def)
    then show ?thesis using \<open>requestMu (svc w')\<close> by (auto simp: lockInv_def assms(2))
  next
    case nh: False
    with False assms(4) have "requestMu (svc w') = requestMu (svc w)" by simp
    then show ?thesis using assms(1) False nh by (auto simp: lockInv_def assms(2))
  qed
qed

lemma fire_lockInv:
  assumes "fire e w ev = Some w'" and "lockInv w"
  shows "lockInv w'"
  using assms(1)
proof (cases rule: fire_shape)
  case (Step t s' p')
  note L = step_pc_lock [OF Step(2)]
  show ?thesis using assms(2) Step(4) by (rule lockInv_update) (use L Step(3) in simp_all)
next
  case (Move t p')
  show ?thesis using assms(2) Move(3) by (rule lockInv_update) (use Move in simp_all)
qed

lemma lockInv_boot: "lockInv (boot wd skip allowed)"
  by (simp add: lockInv_def boot_def holdsLock_def)

lemma reachable_lockInv:
  assumes "run e (boot wd skip allowed) evs = Some w"
  shows "lockInv w"
  using fire_lockInv lockInv_boot assms by (rule run_invariant [where P = lockInv])



lemma fire_spent:
  assumes "fire e w ev = Some w'" and "spent e k w" and "inj (uuid_New e)"
  shows "spent e k w'"
  using assms(1)
proof (cases rule: fire_shape)
  case (Step t s' p')
  from assms(2) obtain n where n: "n < uuidCount (svc w)" "k = uuid_New e n"
    and none: "pendingRequests (svc w) k = None"
    and others: "\<And>u q. permOf (pcs w u) = Some q \<Longrightarrow> ID q \<noteq> k"
    by (auto simp: spent_def)
  have mono: "uuidCount (svc w) \<le> uuidCount s'" using Step(2) by (rule step_pc_uuid)
  have drawn: "\<exists>n < uuidCount s'. k = uuid_New e n"
    using n mono by (intro exI [of _ n]) simp
  have absent: "pendingRequests s' k = None"
  proof (cases "pendingRequests s' k")
    case None
    then show ?thesis .
  next
    case (Some c)
    with Step(2) none obtain q where "pcs w t = R_register q" "ID q = k"
      by (auto dest: step_pc_new_entry)
    then have "permOf (pcs w t) = Some q" "ID q = k" by (simp_all add: permOf_def)
    with others show ?thesis by blast
  qed
  have own: "ID q \<noteq> k" if "permOf p' = Some q" for q
  proof -
    from step_pc_permOf [OF Step(2) that]
    show ?thesis
    proof
      assume "permOf (pcs w t) = Some q"
      then show ?thesis by (rule others)
    next
      assume new: "ID q = uuid_New e (uuidCount (svc w)) \<and> uuidCount s' = Suc (uuidCount (svc w))"
      show ?thesis
      proof
        assume "ID q = k"
        with new n(2) have "uuid_New e (uuidCount (svc w)) = uuid_New e n" by simp
        with assms(3) have "uuidCount (svc w) = n" by (auto dest: injD)
        with n(1) show False by simp
      qed
    qed
  qed
  show ?thesis unfolding spent_def Step(3,4) using drawn absent own others by simp
next
  case (Move t p')
  have "ID q \<noteq> k" if "permOf p' = Some q" for q
    using that Move(6) assms(2) by (auto simp: spent_def)
  then show ?thesis unfolding spent_def Move(2,3) using assms(2) by (simp add: spent_def)
qed





lemma spent_forever:
  assumes "inj (uuid_New e)" and "spent e k w" and "run e w evs = Some w'"
  shows "spent e k w'"
proof (rule run_invariant [where P = "spent e k", OF _ assms(2,3)])
  fix w ev w'
  assume "spent e k w" and "fire e w ev = Some w'"
  then show "spent e k w'" using assms(1) by (blast intro: fire_spent)
qed

lemma fire_cache:
  assumes "fire e w ev = Some w'"
  shows "set (sessionPermissions (svc w)) \<subseteq> set (sessionPermissions (svc w'))"
  using assms
proof (cases rule: fire_shape)
  case (Step t s' p')
  from step_pc_cache [OF Step(2)] show ?thesis by (simp add: Step(3))
qed simp

lemma run_cache:
  assumes "p \<in> set (sessionPermissions (svc w0))" and "run e w0 evs = Some w"
  shows "p \<in> set (sessionPermissions (svc w))"
proof (rule run_invariant [where P = "\<lambda>w. p \<in> set (sessionPermissions (svc w))", OF _ assms])
  fix w ev w'
  assume "p \<in> set (sessionPermissions (svc w))" and "fire e w ev = Some w'"
  then show "p \<in> set (sessionPermissions (svc w'))" using fire_cache by blast
qed

lemma fire_workingDir:
  assumes "fire e w ev = Some w'"
  shows "workingDir (svc w') = workingDir (svc w)"
  using assms
proof (cases rule: fire_shape)
  case (Step t s' p')
  from step_pc_workingDir [OF Step(2)] show ?thesis by (simp add: Step(3))
qed simp

lemma run_workingDir:
  assumes "run e w0 evs = Some w"
  shows "workingDir (svc w) = workingDir (svc w0)"
proof (rule run_invariant [where P = "\<lambda>w. workingDir (svc w) = workingDir (svc w0)", OF _ _ assms])
  fix w ev w'
  assume "workingDir (svc w) = workingDir (svc w0)" and "fire e w ev = Some w'"
  then show "workingDir (svc w') = workingDir (svc w0)" using fire_workingDir by metis
qed simp

section \<open>The calls and the steps agree\<close>

text \<open>
  A thread that runs alone from the entry of a call ends where the call's function says:
  returned with the same value, or blocked at the same point, in the same service state.
\<close>

lemma exec_Request:
  "exec 11 e s (R_mode opts) = (fst (Request e s opts), pcOfRequest opts (snd (Request e s opts)))"
  by (simp add: eval_nat_numeral Request_def Request_locked_def pcOfRequest_def Let_def
      PublishNotification_def Publish_def allowlisted_def autoApprove_def cached_def newPermission_def
      split: PermissionMode.splits)

lemma exec_Request_locked:
  "exec 8 e s (R_allow opts) =
     (fst (Request_locked e s opts), pcOfRequest opts (snd (Request_locked e s opts)))"
  by (simp add: eval_nat_numeral Request_locked_def pcOfRequest_def Let_def
      PublishNotification_def Publish_def allowlisted_def autoApprove_def cached_def newPermission_def)

lemma exec_Grant:
  "exec 4 e s (D_notify DGrant p) = (fst (Grant p s), pcOfDecision DGrant p (snd (Grant p s)))"
  by (simp add: eval_nat_numeral Grant_def pcOfDecision_def Let_def decisionNotification_def
      decisionValue_def afterSend_def PublishNotification_def split: option.splits)

lemma exec_GrantPersistent:
  "exec 5 e s (D_notify DGrantPersistent p) =
     (fst (GrantPersistent p s), pcOfDecision DGrantPersistent p (snd (GrantPersistent p s)))"
  by (simp add: eval_nat_numeral GrantPersistent_def pcOfDecision_def Let_def decisionNotification_def
      decisionValue_def afterSend_def PublishNotification_def clearActive_def split: option.splits)

lemma exec_Deny:
  "exec 4 e s (D_notify DDeny p) = (fst (Deny p s), pcOfDecision DDeny p (snd (Deny p s)))"
  by (simp add: eval_nat_numeral Deny_def pcOfDecision_def Let_def decisionNotification_def
      decisionValue_def afterSend_def PublishNotification_def split: option.splits)

lemma exec_received:
  assumes "Request_received s p c = Some (s', g, err)"
  shows "exec 3 e s (R_select p c) = (s', Finished (RetRequest g err))"
  using assms
  by (auto simp: eval_nat_numeral Request_received_def split: option.splits)

lemma exec_cancelled:
  "exec 2 e s (R_del p (RetRequest False (Some (ContextError err)))) =
     (fst (Request_cancelled s p err),
      Finished (RetRequest (fst (snd (Request_cancelled s p err)))
        (snd (snd (Request_cancelled s p err)))))"
  by (simp add: eval_nat_numeral Request_cancelled_def)

section \<open>Facts about single calls\<close>

lemma Request_prompt:
  assumes "snd (Request e s opts) = AwaitsDecision p c"
  shows "p = newPermission e s opts" and "c = nextChan s"
    and "requests (fst (Request e s opts)) = requests s @ [(CreatedEvent, p)]"
  using assms
  by (auto simp: Request_def Request_locked_def Let_def PublishNotification_def Publish_def
      newPermission_def split: PermissionMode.splits if_splits)

lemma fast_path_outcomes:
  assumes "mode s = ModeRegular" and "\<not> requestMu s"
  shows "allowlisted s opts \<Longrightarrow>
           Request e s opts = (PublishNotification (requested (ToolCallID opts)) s, Returned True None)"
    and "\<not> allowlisted s opts \<Longrightarrow> autoApprove s (SessionID opts) \<Longrightarrow>
           Request e s opts =
             (PublishNotification (granted (ToolCallID opts))
                (PublishNotification (requested (ToolCallID opts)) s), Returned True None)"
    and "\<not> allowlisted s opts \<Longrightarrow> \<not> autoApprove s (SessionID opts) \<Longrightarrow>
         cached s (newPermission e s opts) \<Longrightarrow>
           Request e s opts =
             ((PublishNotification (granted (ToolCallID opts))
                (PublishNotification (requested (ToolCallID opts)) s))
                  \<lparr>uuidCount := Suc (uuidCount s)\<rparr>, Returned True None)"
  using assms
  by (simp_all add: Request_def Request_locked_def Let_def PublishNotification_def
      allowlisted_def autoApprove_def cached_def newPermission_def)

lemma GrantPersistent_cached:
  assumes "snd (GrantPersistent p s) = Completed"
  shows "p \<in> set (sessionPermissions (fst (GrantPersistent p s)))"
  using assms
  by (auto simp: GrantPersistent_def Let_def PublishNotification_def clearActive_def
      split: option.splits)

lemma Request_cached:
  assumes "mode s = ModeRegular" and "\<not> requestMu s" and "cached s (newPermission e s opts)"
  shows "snd (Request e s opts) = Returned True None"
    and "requests (fst (Request e s opts)) = requests s"
  using assms
  by (simp_all add: Request_def Request_locked_def Let_def PublishNotification_def
      allowlisted_def autoApprove_def cached_def newPermission_def)

lemma Request_prompts:
  assumes "mode s = ModeRegular" and "\<not> requestMu s" and "\<not> allowlisted s opts"
    and "\<not> autoApprove s (SessionID opts)" and "\<not> cached s (newPermission e s opts)"
  shows "snd (Request e s opts) = AwaitsDecision (newPermission e s opts) (nextChan s)"
    and "requests (fst (Request e s opts)) = requests s @ [(CreatedEvent, newPermission e s opts)]"
  using assms
  by (simp_all add: Request_def Request_locked_def Let_def PublishNotification_def Publish_def
      allowlisted_def autoApprove_def cached_def newPermission_def)

lemma Request_awaits_lock:
  assumes "mode s = ModeRegular" and "requestMu s"
  shows "snd (Request e s opts) = AwaitsLock"
    and "requests (fst (Request e s opts)) = requests s"
  using assms by (simp_all add: Request_def Let_def PublishNotification_def)

lemma Request_locked_cached:
  assumes "cached s (newPermission e s opts)"
  shows "snd (Request_locked e s opts) = Returned True None"
    and "requests (fst (Request_locked e s opts)) = requests s"
  using assms
  by (simp_all add: Request_locked_def Let_def PublishNotification_def cached_def newPermission_def)

lemma Request_locked_prompts:
  assumes "\<not> allowlisted s opts" and "\<not> autoApprove s (SessionID opts)"
    and "\<not> cached s (newPermission e s opts)"
  shows "snd (Request_locked e s opts) = AwaitsDecision (newPermission e s opts) (nextChan s)"
    and "requests (fst (Request_locked e s opts)) =
           requests s @ [(CreatedEvent, newPermission e s opts)]"
  using assms
  by (simp_all add: Request_locked_def Let_def Publish_def cached_def newPermission_def)

text \<open>The definitions that evaluate the example scenarios.\<close>

lemmas scen = promptEvents_def decideEvents_def returnEvents_def bashPrompt_def boot_def NewPermissionService_def exampleEnv_def bashExecute_def
     entry_def atRest_def allowlisted_def autoApprove_def cached_def samePermission_def newPermission_def resolveDir_def
     PublishNotification_def Publish_def afterSend_def decisionValue_def decisionNotification_def
     granted_def requested_def denied_def clearActive_def

lemmas scen2 = promptedService_def cancelledService_def lateAppend_def reprompt_def
  appendPoint_def twoCallers_def atCheck_def parkedCaller_def
  Request_def Request_locked_def Request_cancelled_def Grant_def GrantPersistent_def Deny_def Let_def scen

section \<open>A cancelled caller and the other threads\<close>






section \<open>A request that matches a cached grant\<close>

lemma fastTrack_step:
  assumes "step_pc e s x = Some (s', x')" and "fastTrack p opts x"
    and "p \<in> set (sessionPermissions s)"
    and "ToolName opts = ToolName p" and "Action opts = Action p"
    and "SessionID opts = SessionID p"
    and "resolveDir e (workingDir s) (Path opts) = Path p"
  shows "fastTrack p opts x' \<and> stepsLeft x' < stepsLeft x \<and> requests s' = requests s"
  using assms
  by (cases x)
     (auto simp: fastTrack_def stepsLeft_def step_defs samePermission_def newPermission_def
        cached_def list_ex_iff split: step_splits)

lemma fastTrack_blocked:
  assumes "step_pc e s x = None" and "fastTrack p opts x"
  shows "(x = R_lock opts \<and> requestMu s) \<or> x = Finished (RetRequest True None)"
  using assms by (cases x) (auto simp: fastTrack_def step_defs split: step_splits)

lemma fastTrack_done:
  assumes "fastTrack p opts x" and "stepsLeft x = 0"
  shows "x = Finished (RetRequest True None)"
  using assms by (cases x) (auto simp: fastTrack_def stepsLeft_def)

lemma fastTrack_point:
  assumes "fastTrack p opts x"
  shows "\<not> atRest x \<or> x = Finished (RetRequest True None)"
    and "\<And>q c. x \<noteq> R_select q c" and "\<And>q c. x \<noteq> R_parked q c"
    and "\<And>q c. x \<noteq> R_publish q c"
  using assms by (cases x; simp add: fastTrack_def atRest_def)+

lemma approving_other:
  assumes f: "fire e w ev = Some w'" and a: "approving p opts t wd k w"
    and ns: "ev \<noteq> Step t" and nc: "\<forall>cl. ev \<noteq> Call t cl"
  shows "approving p opts t wd k w'"
proof -
  from a have ft: "fastTrack p opts (pcs w t)" by (simp add: approving_def)
  have same: "pcs w' t = pcs w t"
    using f
  proof (cases rule: fire_cases)
    case (Call u cl)
    with nc have "u \<noteq> t" by auto
    with Call show ?thesis by simp
  next
    case (Step u s' p')
    with ns have "u \<noteq> t" by auto
    with Step show ?thesis by simp
  next
    case (Commit u q d err)
    with fastTrack_point(3) [OF ft] have "u \<noteq> t" by auto
    with Commit show ?thesis by simp
  next
    case (CtxEnd u err)
    then show ?thesis by simp
  next
    case (SelectCtx u q d err)
    with fastTrack_point(2) [OF ft] have "u \<noteq> t" by auto
    with SelectCtx show ?thesis by simp
  next
    case (Park u q d)
    with fastTrack_point(2) [OF ft] have "u \<noteq> t" by auto
    with Park show ?thesis by simp
  qed
  have "set (sessionPermissions (svc w)) \<subseteq> set (sessionPermissions (svc w'))"
    using f by (rule fire_cache)
  moreover have "workingDir (svc w') = workingDir (svc w)" using f by (rule fire_workingDir)
  ultimately show ?thesis using a same by (auto simp: approving_def)
qed

lemma approving_step:
  assumes f: "fire e w (Step t) = Some w'" and a: "approving p opts t wd k w"
    and "ToolName opts = ToolName p" and "Action opts = Action p"
    and "SessionID opts = SessionID p"
    and "resolveDir e wd (Path opts) = Path p"
  shows "approving p opts t wd (Suc k) w'" and "requests (svc w') = requests (svc w)"
proof -
  from f obtain s' x' where st: "step_pc e (svc w) (pcs w t) = Some (s', x')"
    and w': "w' = w\<lparr>svc := s', pcs := (pcs w)(t := x')\<rparr>"
    by (rule fire_Step)
  from a have ft: "fastTrack p opts (pcs w t)" and mem: "p \<in> set (sessionPermissions (svc w))"
    and wd: "workingDir (svc w) = wd" and k: "stepsLeft (pcs w t) + k \<le> 8"
    by (simp_all add: approving_def)
  from assms(6) wd have dir: "resolveDir e (workingDir (svc w)) (Path opts) = Path p" by simp
  from fastTrack_step [OF st ft mem assms(3-5) dir]
  have *: "fastTrack p opts x'" "stepsLeft x' < stepsLeft (pcs w t)"
    "requests s' = requests (svc w)"
    by simp_all
  from st have "set (sessionPermissions (svc w)) \<subseteq> set (sessionPermissions s')"
    by (rule step_pc_cache)
  moreover from st have "workingDir s' = workingDir (svc w)" by (rule step_pc_workingDir)
  ultimately show "approving p opts t wd (Suc k) w'"
    using * mem wd k by (auto simp: approving_def w')
  from * show "requests (svc w') = requests (svc w)" by (simp add: w')
qed

lemma approving_run:
  assumes "run e w evs = Some w'" and "\<forall>cl. Call t cl \<notin> set evs"
    and "approving p opts t wd k w"
    and "ToolName opts = ToolName p" and "Action opts = Action p"
    and "SessionID opts = SessionID p"
    and "resolveDir e wd (Path opts) = Path p"
  shows "approving p opts t wd (k + count_list evs (Step t)) w'"
  using assms(1-3)
proof (induction evs arbitrary: w k)
  case Nil
  then show ?case by simp
next
  case (Cons ev evs)
  from Cons.prems(1) obtain w1 where f: "fire e w ev = Some w1" and r: "run e w1 evs = Some w'"
    by (auto split: option.splits)
  from Cons.prems(2) have nc: "\<forall>cl. ev \<noteq> Call t cl" and nc': "\<forall>cl. Call t cl \<notin> set evs"
    by auto
  show ?case
  proof (cases "ev = Step t")
    case True
    from f [unfolded True] Cons.prems(3) assms(4-7)
    have "approving p opts t wd (Suc k) w1" by (rule approving_step(1))
    with Cons.IH [OF r nc', of "Suc k"] True show ?thesis by simp
  next
    case False
    from f Cons.prems(3) False nc have "approving p opts t wd k w1" by (rule approving_other)
    with Cons.IH [OF r nc'] False show ?thesis by simp
  qed
qed

lemma cached_append:
  assumes "Path q \<noteq> Path p"
  shows "cached (s\<lparr>sessionPermissions := sessionPermissions s @ [p]\<rparr>) q = cached s q"
  using assms by (auto simp: cached_def samePermission_def list_ex_iff)

lemma Request_locked_append:
  assumes "resolveDir e (workingDir s) (Path opts) \<noteq> Path p"
  shows "snd (Request_locked e (s\<lparr>sessionPermissions := sessionPermissions s @ [p]\<rparr>) opts) =
           snd (Request_locked e s opts)"
    and "snd (Request_locked e s opts) = AwaitsDecision q c \<Longrightarrow>
         requests (fst (Request_locked e (s\<lparr>sessionPermissions := sessionPermissions s @ [p]\<rparr>) opts)) =
           requests s @ [(CreatedEvent, q)]"
  using assms
  by (auto simp: Request_locked_def Let_def allowlisted_def autoApprove_def cached_def
        samePermission_def list_ex_iff newPermission_def Publish_def PublishNotification_def
      split: if_splits)

section \<open>Single-flight prompting\<close>

text \<open>
  C1. In every state the system can reach: a thread anywhere between its \<^verbatim>\<open>Lock\<close> and
  its deferred \<^verbatim>\<open>Unlock\<close> (the fast-path checks, the publish, the whole wait, parked or
  not, the deferred delete) has \<^verbatim>\<open>requestMu\<close> locked and is the only thread there; the mode
  gate, the "requested" notification and the call of \<^verbatim>\<open>Lock\<close> itself are outside. A step
  whose next program point depends on the allowlist, the auto-approve set or the cache
  is a step of the thread that holds the lock. A thread at \<^verbatim>\<open>Lock\<close> cannot move while
  \<^verbatim>\<open>requestMu\<close> is locked; the only step into the locked region is that of \<^verbatim>\<open>Lock\<close>, taken
  with \<^verbatim>\<open>requestMu\<close> free; and a \<^verbatim>\<open>Request\<close> returns only at the mode gate or through its
  deferred \<^verbatim>\<open>Unlock\<close>, taken with the lock held and freeing it. From the lock on, a thread
  running alone executes the body of \<^verbatim>\<open>Request\<close>: the three checks, then the prompt. An
  event that puts a prompt on the request stream is the publish step of one thread, taken
  while no other thread is between lock and unlock, so no other request has a
  prompt outstanding. A waiting thread leaves its select only by receiving a decision
  from its channel or by its context's end, and a decision enters a channel only
  through the send of a Grant, GrantPersistent or Deny call.
\<close>

theorem single_flight_prompting:
  assumes "run e (boot wd skip allowed) evs = Some w"
  shows "(\<forall>opts p c r. holdsLock (R_allow opts) \<and> holdsLock (R_auto opts) \<and>
            holdsLock (R_stat opts) \<and> holdsLock (R_cache opts p) \<and>
            holdsLock (R_publish p c) \<and> holdsLock (R_select p c) \<and>
            holdsLock (R_parked p c) \<and> holdsLock (R_del p r) \<and> holdsLock (R_unlock r) \<and>
            \<not> holdsLock (R_mode opts) \<and> \<not> holdsLock (R_notify opts) \<and>
            \<not> holdsLock (R_lock opts)) \<and>
         (\<forall>t. holdsLock (pcs w t) \<longrightarrow>
            requestMu (svc w) \<and> (\<forall>t'. holdsLock (pcs w t') \<longrightarrow> t' = t)) \<and>
         (\<forall>t a b c.
            map_option snd (step_pc e
              ((svc w)\<lparr>allowedTools := a, autoApproveSessions := b, sessionPermissions := c\<rparr>)
              (pcs w t)) \<noteq>
            map_option snd (step_pc e (svc w) (pcs w t)) \<longrightarrow>
            holdsLock (pcs w t) \<and> requestMu (svc w) \<and>
            (\<forall>t'. holdsLock (pcs w t') \<longrightarrow> t' = t)) \<and>
         (\<forall>t opts. pcs w t = R_lock opts \<and> requestMu (svc w) \<longrightarrow> fire e w (Step t) = None) \<and>
         (\<forall>t w'. fire e w (Step t) = Some w' \<and> \<not> holdsLock (pcs w t) \<and> holdsLock (pcs w' t) \<longrightarrow>
            (\<exists>opts. pcs w t = R_lock opts \<and> pcs w' t = R_allow opts) \<and>
            \<not> requestMu (svc w) \<and> svc w' = (svc w)\<lparr>requestMu := True\<rparr>) \<and>
         (\<forall>t w' g err. fire e w (Step t) = Some w' \<and> pcs w' t = Finished (RetRequest g err) \<longrightarrow>
            (\<exists>opts. pcs w t = R_mode opts) \<or>
            (pcs w t = R_unlock (RetRequest g err) \<and> requestMu (svc w) \<and>
             svc w' = (svc w)\<lparr>requestMu := False\<rparr>)) \<and>
         (\<forall>s opts. exec 8 e s (R_allow opts) =
            (fst (Request_locked e s opts), pcOfRequest opts (snd (Request_locked e s opts)))) \<and>
         (\<forall>ev w'. fire e w ev = Some w' \<and> requests (svc w') \<noteq> requests (svc w) \<longrightarrow>
            (\<exists>t p c. ev = Step t \<and> pcs w t = R_publish p c \<and>
               requests (svc w') = requests (svc w) @ [(CreatedEvent, p)] \<and>
               (\<forall>t'. t' \<noteq> t \<longrightarrow> \<not> holdsLock (pcs w t')))) \<and>
         (\<forall>ev w' t p c. fire e w ev = Some w' \<and>
              (pcs w t = R_select p c \<or> pcs w t = R_parked p c) \<and>
              pcs w' t \<noteq> R_select p c \<and> pcs w' t \<noteq> R_parked p c \<longrightarrow>
            (\<exists>g. ev = Step t \<and> chans (svc w) c = Some g \<and>
                  pcs w' t = R_del p (RetRequest g None)) \<or>
            (\<exists>err. ev = SelectCtx t \<and> pcs w t = R_select p c \<and> ctxs w t = Some err \<and>
                  pcs w' t = R_del p (RetRequest False (Some (ContextError err)))) \<or>
            (\<exists>err. ev = CtxEnd t err \<and> pcs w t = R_parked p c \<and> chans (svc w) c = None \<and>
                  pcs w' t = R_del p (RetRequest False (Some (ContextError err))))) \<and>
         (\<forall>ev w' c g. fire e w ev = Some w' \<and> chans (svc w) c = None \<and>
              chans (svc w') c = Some g \<longrightarrow>
            (\<exists>t d q. ev = Step t \<and> pcs w t = D_send d q c \<and> g = decisionValue d))"
proof -
  have inv: "lockInv w" using assms by (rule reachable_lockInv)
  have excl: "\<forall>t. holdsLock (pcs w t) \<longrightarrow>
            requestMu (svc w) \<and> (\<forall>t'. holdsLock (pcs w t') \<longrightarrow> t' = t)"
    using inv by (auto simp: lockInv_def)
  have checks: "holdsLock (pcs w t) \<and> requestMu (svc w) \<and>
            (\<forall>t'. holdsLock (pcs w t') \<longrightarrow> t' = t)"
    if "map_option snd (step_pc e
              ((svc w)\<lparr>allowedTools := a, autoApproveSessions := b, sessionPermissions := c\<rparr>)
              (pcs w t)) \<noteq>
            map_option snd (step_pc e (svc w) (pcs w t))" for t a b c
  proof -
    from that have "holdsLock (pcs w t)" using step_pc_independent by blast
    with excl show ?thesis by blast
  qed
  have waits: "fire e w (Step t) = None" if "pcs w t = R_lock opts \<and> requestMu (svc w)" for t opts
    using that by simp
  have takes: "(\<exists>opts. pcs w t = R_lock opts \<and> pcs w' t = R_allow opts) \<and>
            \<not> requestMu (svc w) \<and> svc w' = (svc w)\<lparr>requestMu := True\<rparr>"
    if "fire e w (Step t) = Some w' \<and> \<not> holdsLock (pcs w t) \<and> holdsLock (pcs w' t)" for t w'
  proof -
    from that have "fire e w (Step t) = Some w'" by simp
    then obtain s' p' where st: "step_pc e (svc w) (pcs w t) = Some (s', p')"
      and w': "w' = w\<lparr>svc := s', pcs := (pcs w)(t := p')\<rparr>"
      by (rule fire_Step)
    from that w' have "\<not> holdsLock (pcs w t)" "holdsLock p'" by simp_all
    from step_pc_takes_lock [OF st this] show ?thesis by (auto simp: w')
  qed
  have returns: "(\<exists>opts. pcs w t = R_mode opts) \<or>
            (pcs w t = R_unlock (RetRequest g err) \<and> requestMu (svc w) \<and>
             svc w' = (svc w)\<lparr>requestMu := False\<rparr>)"
    if "fire e w (Step t) = Some w' \<and> pcs w' t = Finished (RetRequest g err)" for t w' g err
  proof -
    from that have "fire e w (Step t) = Some w'" by simp
    then obtain s' p' where st: "step_pc e (svc w) (pcs w t) = Some (s', p')"
      and w': "w' = w\<lparr>svc := s', pcs := (pcs w)(t := p')\<rparr>"
      by (rule fire_Step)
    from that w' have "p' = Finished (RetRequest g err)" by simp
    with st have "(\<exists>opts. pcs w t = R_mode opts) \<or>
         (pcs w t = R_unlock (RetRequest g err) \<and> s' = (svc w)\<lparr>requestMu := False\<rparr>)"
      by (auto dest: step_pc_returns)
    moreover have "requestMu (svc w)" if u: "pcs w t = R_unlock (RetRequest g err)"
    proof -
      from u have "holdsLock (pcs w t)" by (simp add: holdsLock_def)
      with excl show ?thesis by blast
    qed
    ultimately show ?thesis by (auto simp: w')
  qed
  have pub: "\<exists>t p c. ev = Step t \<and> pcs w t = R_publish p c \<and>
               requests (svc w') = requests (svc w) @ [(CreatedEvent, p)] \<and>
               (\<forall>t'. t' \<noteq> t \<longrightarrow> \<not> holdsLock (pcs w t'))"
    if "fire e w ev = Some w' \<and> requests (svc w') \<noteq> requests (svc w)" for ev w'
  proof -
    from that fire_publishes obtain t p c where
      *: "ev = Step t" "pcs w t = R_publish p c"
         "requests (svc w') = requests (svc w) @ [(CreatedEvent, p)]"
      by blast
    from *(2) have "holdsLock (pcs w t)" by (simp add: holdsLock_def)
    with excl have "\<forall>t'. t' \<noteq> t \<longrightarrow> \<not> holdsLock (pcs w t')" by blast
    with * show ?thesis by blast
  qed
  have leaves: "(\<exists>g. ev = Step t \<and> chans (svc w) c = Some g \<and>
                  pcs w' t = R_del p (RetRequest g None)) \<or>
            (\<exists>err. ev = SelectCtx t \<and> pcs w t = R_select p c \<and> ctxs w t = Some err \<and>
                  pcs w' t = R_del p (RetRequest False (Some (ContextError err)))) \<or>
            (\<exists>err. ev = CtxEnd t err \<and> pcs w t = R_parked p c \<and> chans (svc w) c = None \<and>
                  pcs w' t = R_del p (RetRequest False (Some (ContextError err))))"
    if "fire e w ev = Some w' \<and>
              (pcs w t = R_select p c \<or> pcs w t = R_parked p c) \<and>
              pcs w' t \<noteq> R_select p c \<and> pcs w' t \<noteq> R_parked p c" for ev w' t p c
  proof -
    from that have "fire e w ev = Some w'"
      and "pcs w t = R_select p c \<or> pcs w t = R_parked p c"
      and "pcs w' t \<noteq> R_select p c" and "pcs w' t \<noteq> R_parked p c"
      by simp_all
    then show ?thesis by (rule fire_leaves_wait)
  qed
  have delivers: "\<exists>t d q. ev = Step t \<and> pcs w t = D_send d q c \<and> g = decisionValue d"
    if "fire e w ev = Some w' \<and> chans (svc w) c = None \<and> chans (svc w') c = Some g" for ev w' c g
  proof -
    from that have "fire e w ev = Some w'" and "chans (svc w) c = None"
      and "chans (svc w') c = Some g"
      by simp_all
    then show ?thesis by (rule fire_delivers)
  qed
  show ?thesis
  proof (intro conjI)
    show "\<forall>opts p c r. holdsLock (R_allow opts) \<and> holdsLock (R_auto opts) \<and>
            holdsLock (R_stat opts) \<and> holdsLock (R_cache opts p) \<and>
            holdsLock (R_publish p c) \<and> holdsLock (R_select p c) \<and>
            holdsLock (R_parked p c) \<and> holdsLock (R_del p r) \<and> holdsLock (R_unlock r) \<and>
            \<not> holdsLock (R_mode opts) \<and> \<not> holdsLock (R_notify opts) \<and>
            \<not> holdsLock (R_lock opts)"
      by (simp add: holdsLock_def)
    show "\<forall>t. holdsLock (pcs w t) \<longrightarrow>
            requestMu (svc w) \<and> (\<forall>t'. holdsLock (pcs w t') \<longrightarrow> t' = t)"
      by (rule excl)
    show "\<forall>s opts. exec 8 e s (R_allow opts) =
            (fst (Request_locked e s opts), pcOfRequest opts (snd (Request_locked e s opts)))"
      by (simp only: exec_Request_locked) simp
  qed (use checks waits takes returns pub leaves delivers in blast)+
qed

theorem single_flight_prompting_witness:
  "\<exists>w v. twoCallers = Some w \<and>
     pcs w 1 = R_select (bashPrompt ''/repo'' 0) 0 \<and>
     pcs w 2 = R_lock (bashExecute ''/tmp'') \<and>
     holdsLock (pcs w 1) \<and> requestMu (svc w) \<and> \<not> holdsLock (pcs w 2) \<and>
     fire exampleEnv w (Step 2) = None \<and>
     requests (svc w) = [(CreatedEvent, bashPrompt ''/repo'' 0)] \<and>
     atCheck = Some v \<and>
     pcs v 1 = R_allow (bashExecute ''/repo'') \<and>
     map_option snd (step_pc exampleEnv
        ((svc v)\<lparr>allowedTools := [''bash''], autoApproveSessions := Map.empty,
                 sessionPermissions := []\<rparr>) (pcs v 1)) \<noteq>
     map_option snd (step_pc exampleEnv (svc v) (pcs v 1)) \<and>
     requestMu (svc v)"
proof -
  have "\<exists>w. twoCallers = Some w \<and>
     pcs w 1 = R_select (bashPrompt ''/repo'' 0) 0 \<and>
     pcs w 2 = R_lock (bashExecute ''/tmp'') \<and>
     requests (svc w) = [(CreatedEvent, bashPrompt ''/repo'' 0)]"
    by (simp add: scen2)
  then obtain w where r: "twoCallers = Some w"
    and w: "pcs w 1 = R_select (bashPrompt ''/repo'' 0) 0"
      "pcs w 2 = R_lock (bashExecute ''/tmp'')"
      "requests (svc w) = [(CreatedEvent, bashPrompt ''/repo'' 0)]"
    by blast
  have "\<exists>v. atCheck = Some v \<and>
     pcs v 1 = R_allow (bashExecute ''/repo'') \<and>
     map_option snd (step_pc exampleEnv
        ((svc v)\<lparr>allowedTools := [''bash''], autoApproveSessions := Map.empty,
                 sessionPermissions := []\<rparr>) (pcs v 1)) \<noteq>
     map_option snd (step_pc exampleEnv (svc v) (pcs v 1))"
    by (simp add: scen2)
  then obtain v where rv: "atCheck = Some v"
    and v: "pcs v 1 = R_allow (bashExecute ''/repo'')"
     "map_option snd (step_pc exampleEnv
        ((svc v)\<lparr>allowedTools := [''bash''], autoApproveSessions := Map.empty,
                 sessionPermissions := []\<rparr>) (pcs v 1)) \<noteq>
     map_option snd (step_pc exampleEnv (svc v) (pcs v 1))"
    by blast
  have h: "holdsLock (pcs w 1)" using w(1) by (simp add: holdsLock_def)
  note T = single_flight_prompting [OF r [unfolded twoCallers_def]]
  from T [THEN conjunct2, THEN conjunct1]
  have "\<forall>t. holdsLock (pcs w t) \<longrightarrow>
            requestMu (svc w) \<and> (\<forall>t'. holdsLock (pcs w t') \<longrightarrow> t' = t)" .
  with h have mu: "requestMu (svc w)"
    and only: "\<forall>t'. holdsLock (pcs w t') \<longrightarrow> t' = 1"
    by blast+
  from only have "holdsLock (pcs w 2) \<longrightarrow> (2::nat) = 1" by blast
  then have nh: "\<not> holdsLock (pcs w 2)" by simp
  from T [THEN conjunct2, THEN conjunct2, THEN conjunct2, THEN conjunct1]
  have "\<forall>t opts. pcs w t = R_lock opts \<and> requestMu (svc w) \<longrightarrow>
      fire exampleEnv w (Step t) = None" .
  with w(2) mu have blocked: "fire exampleEnv w (Step 2) = None" by blast
  note V = single_flight_prompting [OF rv [unfolded atCheck_def]]
  from V [THEN conjunct2, THEN conjunct2, THEN conjunct1] have "\<forall>t a b c.
            map_option snd (step_pc exampleEnv
              ((svc v)\<lparr>allowedTools := a, autoApproveSessions := b, sessionPermissions := c\<rparr>)
              (pcs v t)) \<noteq>
            map_option snd (step_pc exampleEnv (svc v) (pcs v t)) \<longrightarrow>
            holdsLock (pcs v t) \<and> requestMu (svc v) \<and>
            (\<forall>t'. holdsLock (pcs v t') \<longrightarrow> t' = t)" .
  with v(2) have "requestMu (svc v)" by blast
  with r w h mu nh blocked rv v show ?thesis by blast
qed

section \<open>The mode gate\<close>

text \<open>
  C2. In Plan mode a request whose action is write or execute, for a tool outside the
  read-only exemption set, returns false with the error "write operations are not allowed
  in plan mode" and leaves the service as it was: nothing is published on either stream.
  The service state is arbitrary, so no allowlist entry, cached grant or auto-approve flag
  changes the outcome.
\<close>

theorem plan_mode_blocks_writes:
  assumes "mode s = ModePlan"
    and "Action opts = ''write'' \<or> Action opts = ''execute''"
    and "ToolName opts \<noteq> ''mcp_sequential-thinking_sequentialthinking''"
  shows "Request e s opts =
           (s, Returned False (Some (Errorf ''write operations are not allowed in plan mode'')))"
  using assms by (auto simp: Request_def isWriteOperation_def isReadOnlyTool_def)

theorem plan_mode_blocks_writes_witness:
  "allowlisted (generousService ModePlan) (bashExecute ''/repo'') \<and>
   autoApprove (generousService ModePlan) ''s1'' \<and>
   cached (generousService ModePlan)
     (newPermission exampleEnv (generousService ModePlan) (bashExecute ''/repo'')) \<and>
   Request exampleEnv (generousService ModePlan) (bashExecute ''/repo'') =
     (generousService ModePlan,
      Returned False (Some (Errorf ''write operations are not allowed in plan mode'')))"
proof -
  have "Request exampleEnv (generousService ModePlan) (bashExecute ''/repo'') =
     (generousService ModePlan,
      Returned False (Some (Errorf ''write operations are not allowed in plan mode'')))"
    by (rule plan_mode_blocks_writes)
       (simp_all add: generousService_def bashExecute_def NewPermissionService_def)
  moreover have "allowlisted (generousService ModePlan) (bashExecute ''/repo'')"
    by (simp add: allowlisted_def generousService_def bashExecute_def NewPermissionService_def)
  moreover have "autoApprove (generousService ModePlan) ''s1''"
    by (simp add: autoApprove_def generousService_def)
  moreover have "cached (generousService ModePlan)
     (newPermission exampleEnv (generousService ModePlan) (bashExecute ''/repo''))"
    by (simp add: cached_def samePermission_def newPermission_def resolveDir_def
        generousService_def bashExecute_def bashPrompt_def exampleEnv_def
        NewPermissionService_def)
  ultimately show ?thesis by simp
qed

text \<open>
  C3. In Yolo mode every request returns true with no error and leaves the service as it
  was: no prompt on the request stream and no notification of any kind.
\<close>

theorem yolo_approves_silently:
  assumes "mode s = ModeYolo"
  shows "Request e s opts = (s, Returned True None)"
  using assms by (simp add: Request_def)

theorem yolo_approves_silently_witness:
  "mode (NewPermissionService ''/repo'' True []) = ModeYolo \<and>
   Request exampleEnv (NewPermissionService ''/repo'' True []) (bashExecute ''/repo'') =
     (NewPermissionService ''/repo'' True [], Returned True None)"
  using yolo_approves_silently [of "NewPermissionService ''/repo'' True []" exampleEnv
      "bashExecute ''/repo''"]
  by (simp add: NewPermissionService_def)

section \<open>The decision calls\<close>

text \<open>
  C4, as the claim states it, fails. With no pending slot for the ID, Grant still
  publishes its notification, GrantPersistent still appends to the cache, and Deny on
  the ID of a cancelled request still clears the active request.
\<close>

theorem stale_decision_counterexample:
  "pendingRequests (NewPermissionService ''/repo'' False []) (ID (bashPrompt ''/repo'' 0)) = None \<and>
   notifications (NewPermissionService ''/repo'' False []) = [] \<and>
   notifications (fst (Grant (bashPrompt ''/repo'' 0) (NewPermissionService ''/repo'' False []))) =
     [(CreatedEvent, granted ''tc1'')] \<and>
   sessionPermissions (NewPermissionService ''/repo'' False []) = [] \<and>
   sessionPermissions (fst (GrantPersistent (bashPrompt ''/repo'' 0)
      (NewPermissionService ''/repo'' False []))) = [bashPrompt ''/repo'' 0] \<and>
   pendingRequests cancelledService (ID (bashPrompt ''/repo'' 0)) = None \<and>
   activeRequest cancelledService = Some (bashPrompt ''/repo'' 0) \<and>
   activeRequest (fst (Deny (bashPrompt ''/repo'' 0) cancelledService)) = None"
  by (simp add: scen2)

text \<open>
  C4, amended. A Grant, GrantPersistent or Deny call whose ID has no pending slot
  returns without blocking, delivers no decision, and leaves the pending table, the
  channels, the request stream, the mode, the prompt lock and the auto-approve set as
  they were. It still publishes its granted or denied notification, GrantPersistent
  still appends the request to the session permission cache, and the active request is
  cleared when its ID is the call's.
\<close>

theorem stale_decision_calls:
  assumes "pendingRequests s (ID p) = None"
  shows "Grant p s = (clearActive p (PublishNotification (granted (ToolCallID p)) s), Completed) \<and>
         GrantPersistent p s =
           (clearActive p ((PublishNotification (granted (ToolCallID p)) s)
              \<lparr>sessionPermissions := sessionPermissions s @ [p]\<rparr>), Completed) \<and>
         Deny p s = (clearActive p (PublishNotification (denied (ToolCallID p)) s), Completed) \<and>
         (\<forall>s' \<in> {fst (Grant p s), fst (GrantPersistent p s), fst (Deny p s)}.
            pendingRequests s' = pendingRequests s \<and> chans s' = chans s \<and>
            requests s' = requests s \<and> mode s' = mode s \<and> requestMu s' = requestMu s \<and>
            autoApproveSessions s' = autoApproveSessions s)"
  using assms
  by (simp add: Grant_def GrantPersistent_def Deny_def Let_def PublishNotification_def
      clearActive_def split: option.splits)

theorem stale_decision_calls_witness:
  "pendingRequests cancelledService (ID (bashPrompt ''/repo'' 0)) = None \<and>
   snd (Grant (bashPrompt ''/repo'' 0) cancelledService) = Completed \<and>
   snd (GrantPersistent (bashPrompt ''/repo'' 0) cancelledService) = Completed \<and>
   snd (Deny (bashPrompt ''/repo'' 0) cancelledService) = Completed \<and>
   pendingRequests (fst (Deny (bashPrompt ''/repo'' 0) cancelledService)) =
     pendingRequests cancelledService"
proof -
  have h: "pendingRequests cancelledService (ID (bashPrompt ''/repo'' 0)) = None"
    by (simp add: scen2)
  note t = stale_decision_calls [OF h]
  from t have "snd (Grant (bashPrompt ''/repo'' 0) cancelledService) = Completed"
    and "snd (GrantPersistent (bashPrompt ''/repo'' 0) cancelledService) = Completed"
    and "snd (Deny (bashPrompt ''/repo'' 0) cancelledService) = Completed"
    by simp_all
  moreover from t have "pendingRequests (fst (Deny (bashPrompt ''/repo'' 0) cancelledService)) =
     pendingRequests cancelledService"
    by blast
  ultimately show ?thesis using h by blast
qed

text \<open>
  C5, as the claim states it, fails. GrantPersistent sends the decision before it
  appends: in the run \<open>lateAppend\<close> the blocked caller has received true and returned
  while the granting thread is still before its append, and the cache is empty.
\<close>

theorem grant_persistent_order_counterexample:
  "lateAppend \<noteq> None \<and>
   pcs (the lateAppend) 1 = Finished (RetRequest True None) \<and>
   pcs (the lateAppend) 2 = D_append (bashPrompt ''/repo'' 0) \<and>
   sessionPermissions (svc (the lateAppend)) = []"
  by (simp add: scen2)

text \<open>
  C5, amended. A GrantPersistent call that finds the pending slot with an empty
  channel first delivers true on the channel, the cache still as it was, and appends
  the request to the cache in its next step; when the call returns, the decision is
  delivered and the cache holds the request as its last record.
\<close>

theorem grant_persistent_delivers_then_appends:
  assumes "pendingRequests s (ID p) = Some c" and "chans s c = None"
  shows "\<exists>s1. exec 3 e s (D_notify DGrantPersistent p) = (s1, D_append p) \<and>
           chans s1 c = Some True \<and>
           sessionPermissions s1 = sessionPermissions s \<and>
           exec 2 e s1 (D_append p) = (fst (GrantPersistent p s), Finished RetUnit) \<and>
           snd (GrantPersistent p s) = Completed \<and>
           sessionPermissions (fst (GrantPersistent p s)) = sessionPermissions s @ [p] \<and>
           chans (fst (GrantPersistent p s)) c = Some True"
  using assms
  by (simp add: eval_nat_numeral GrantPersistent_def Let_def decisionNotification_def
      decisionValue_def afterSend_def PublishNotification_def clearActive_def split: option.splits)

theorem grant_persistent_delivers_then_appends_witness:
  "pendingRequests promptedService (ID (bashPrompt ''/repo'' 0)) = Some 0 \<and>
   chans promptedService 0 = None \<and>
   snd (GrantPersistent (bashPrompt ''/repo'' 0) promptedService) = Completed \<and>
   sessionPermissions (fst (GrantPersistent (bashPrompt ''/repo'' 0) promptedService)) =
     [bashPrompt ''/repo'' 0] \<and>
   chans (fst (GrantPersistent (bashPrompt ''/repo'' 0) promptedService)) 0 = Some True"
proof -
  have h: "pendingRequests promptedService (ID (bashPrompt ''/repo'' 0)) = Some 0"
    "chans promptedService 0 = None" "sessionPermissions promptedService = []"
    by (simp_all add: scen2)
  from grant_persistent_delivers_then_appends [OF h(1,2)] show ?thesis using h by auto
qed

section \<open>The fast paths\<close>

text \<open>
  C6. The claim holds for the auto-approve flag and for a cache match
  (\<open>fast_path_outcomes\<close>), and no fast path publishes a prompt; an allowlist hit returns
  true without a granted notification. The code at that input: Regular mode, the
  allowlist \<^verbatim>\<open>["bash"]\<close>, a request for tool \<^verbatim>\<open>bash\<close>. The notification stream ends
  with the "requested" notification alone.
\<close>

theorem allowlist_hit_lacks_granted_notification:
  "Request exampleEnv (NewPermissionService ''/repo'' False [''bash'']) (bashExecute ''/repo'') =
     ((NewPermissionService ''/repo'' False [''bash''])
        \<lparr>notifications := [(CreatedEvent, requested ''tc1'')]\<rparr>, Returned True None) \<and>
   (CreatedEvent, granted ''tc1'') \<notin>
     set (notifications (fst (Request exampleEnv (NewPermissionService ''/repo'' False [''bash''])
        (bashExecute ''/repo''))))"
  by (simp add: Request_def Request_locked_def Let_def scen)

section \<open>Path resolution\<close>

text \<open>
  C7, as the claim states it, fails. A request with the empty path stores the empty
  path, not the working directory, and a relative path that names no existing file is
  stored as it is.
\<close>

theorem empty_path_counterexample:
  "snd (Request exampleEnv (NewPermissionService ''/repo'' False []) (bashExecute [])) =
     AwaitsDecision (bashPrompt [] 0) 0 \<and>
   Path (bashPrompt [] 0) \<noteq> workingDir (NewPermissionService ''/repo'' False []) \<and>
   snd (Request exampleEnv (NewPermissionService ''/repo'' False []) (bashExecute ''docs/new.txt'')) =
     AwaitsDecision (bashPrompt ''docs/new.txt'' 0) 0 \<and>
   Path (bashPrompt ''docs/new.txt'' 0) \<noteq> workingDir (NewPermissionService ''/repo'' False [])"
  by (simp add: Request_def Request_locked_def Let_def scen)

text \<open>
  C7, amended. The path of the request \<^verbatim>\<open>Request\<close> synthesizes (the one it matches
  against the cache and, on no match, publishes): for an existing non-directory
  file, its parent directory as \<^verbatim>\<open>filepath.Dir\<close> gives it; for an existing directory,
  and when the probe fails (also for the empty path), the given path itself; and the
  working directory exactly when that result is the string ".".
\<close>

theorem stored_path:
  assumes "snd (Request e s opts) = AwaitsDecision p c \<or> p = newPermission e s opts"
  shows "(\<forall>fi. os_Stat e (Path opts) = Some fi \<and> \<not> IsDir fi \<and> filepath_Dir e (Path opts) \<noteq> ''.'' \<longrightarrow>
            Path p = filepath_Dir e (Path opts)) \<and>
         (\<forall>fi. os_Stat e (Path opts) = Some fi \<and> \<not> IsDir fi \<and> filepath_Dir e (Path opts) = ''.'' \<longrightarrow>
            Path p = workingDir s) \<and>
         (\<forall>fi. os_Stat e (Path opts) = Some fi \<and> IsDir fi \<and> Path opts \<noteq> ''.'' \<longrightarrow>
            Path p = Path opts) \<and>
         (os_Stat e (Path opts) = None \<and> Path opts \<noteq> ''.'' \<longrightarrow> Path p = Path opts) \<and>
         ((os_Stat e (Path opts) = None \<or> (\<exists>fi. os_Stat e (Path opts) = Some fi \<and> IsDir fi)) \<and>
            Path opts = ''.'' \<longrightarrow> Path p = workingDir s) \<and>
         (os_Stat e (Path opts) = None \<and> Path opts = [] \<longrightarrow> Path p = [])"
proof -
  from assms have "p = newPermission e s opts" by (auto dest: Request_prompt(1))
  then have "Path p = resolveDir e (workingDir s) (Path opts)"
    by (simp add: newPermission_def)
  then show ?thesis
    by (cases "os_Stat e (Path opts)") (auto simp: resolveDir_def Let_def split: FileInfo.splits)
qed

theorem stored_path_witness:
  "snd (Request exampleEnv (NewPermissionService ''/work'' False []) (bashExecute ''main.go'')) =
     AwaitsDecision (bashPrompt ''/work'' 0) 0 \<and>
   os_Stat exampleEnv ''main.go'' = Some (FileInfo False) \<and>
   filepath_Dir exampleEnv ''main.go'' = ''.'' \<and>
   Path (bashPrompt ''/work'' 0) = workingDir (NewPermissionService ''/work'' False [])"
proof -
  have r: "snd (Request exampleEnv (NewPermissionService ''/work'' False []) (bashExecute ''main.go'')) =
     AwaitsDecision (bashPrompt ''/work'' 0) 0"
    by (simp add: Request_def Request_locked_def Let_def scen)
  from stored_path [OF disjI1 [OF r]] show ?thesis using r by (simp add: exampleEnv_def bashExecute_def)
qed

section \<open>Persistent grants\<close>

text \<open>
  C8, as the claim states it, fails. \<^verbatim>\<open>GrantPersistent\<close> delivers the decision before it
  appends to the cache. In the run where the granting goroutine is preempted between the
  two, the request is resolved and its caller returns true, the cache still empty; the
  caller's next \<^verbatim>\<open>Request\<close> with the same arguments, in Regular mode, then publishes a
  second prompt for the same tool, action, session and path, and waits. And when the grant
  is complete, such a \<^verbatim>\<open>Request\<close> does not return while another request's prompt is
  outstanding: it waits at \<^verbatim>\<open>Lock\<close>.
\<close>

theorem reprompt_counterexample:
  "\<exists>v w u.
     lateAppend = Some v \<and>
     pcs v 1 = Finished (RetRequest True None) \<and>
     pcs v 2 = D_append (bashPrompt ''/repo'' 0) \<and>
     sessionPermissions (svc v) = [] \<and>
     run exampleEnv v (promptEvents 1 (bashExecute ''/repo'')) = Some w \<and>
     reprompt = Some w \<and>
     mode (svc w) = ModeRegular \<and>
     pcs w 2 = D_append (bashPrompt ''/repo'' 0) \<and>
     pcs w 1 = R_select (bashPrompt ''/repo'' 1) 1 \<and>
     requests (svc w) =
       [(CreatedEvent, bashPrompt ''/repo'' 0), (CreatedEvent, bashPrompt ''/repo'' 1)] \<and>
     samePermission (bashPrompt ''/repo'' 0) (bashPrompt ''/repo'' 1) \<and>
     waitingRepeat = Some u \<and>
     pcs u 2 = Finished RetUnit \<and>
     sessionPermissions (svc u) = [bashPrompt ''/repo'' 0] \<and>
     pcs u 1 = R_lock (bashExecute ''/repo'') \<and>
     fire exampleEnv u (Step 1) = None"
  by (simp add: scen2 waitingRepeat_def entry_def afterSend_def samePermission_def
        decideEvents_def)

text \<open>
  C8, amended. Thread \<open>g\<close>, in \<^verbatim>\<open>GrantPersistent\<close> for the request \<open>p\<close>, takes its append step in
  a reachable state; the cache then holds \<open>p\<close>. Whatever the threads do from there: a
  \<^verbatim>\<open>Request\<close> that passes the mode gate later, in Regular mode, with the tool, action and
  session of \<open>p\<close> and a path that resolves to the path of \<open>p\<close>, publishes nothing on the
  request stream and never is at the publish step or in the select; it takes at most eight
  steps after the gate, can take its next step at any time except at \<^verbatim>\<open>Lock\<close> while
  another call holds the prompt lock, and when it has returned, it has returned true with
  no error. The append changes nothing for a request whose path resolves elsewhere: the
  body of \<^verbatim>\<open>Request\<close> under the lock has the same outcome before and after the append, so
  where it prompted before it still creates and publishes its prompt, and the cache check
  has the same result for every request with another path.
\<close>

theorem persistent_grant_memoized:
  assumes "run e (boot wd skip allowed) evs0 = Some w0"
    and "pcs w0 g = D_append p"
    and "fire e w0 (Step g) = Some w1"
  shows "svc w1 = (svc w0)\<lparr>sessionPermissions := sessionPermissions (svc w0) @ [p]\<rparr> \<and>
         (\<forall>opts evs1 w2 t w3 evs2 w.
            ToolName opts = ToolName p \<and> Action opts = Action p \<and>
            SessionID opts = SessionID p \<and> resolveDir e wd (Path opts) = Path p \<and>
            run e w1 evs1 = Some w2 \<and> pcs w2 t = R_mode opts \<and>
            mode (svc w2) = ModeRegular \<and> fire e w2 (Step t) = Some w3 \<and>
            run e w3 evs2 = Some w \<and> (\<forall>cl. Call t cl \<notin> set evs2) \<longrightarrow>
            requests (svc w3) = requests (svc w2) \<and>
            p \<in> set (sessionPermissions (svc w)) \<and>
            count_list evs2 (Step t) \<le> 8 \<and>
            (count_list evs2 (Step t) = 8 \<longrightarrow> pcs w t = Finished (RetRequest True None)) \<and>
            (\<forall>r. pcs w t = Finished r \<longrightarrow> r = RetRequest True None) \<and>
            (\<forall>q c. pcs w t \<noteq> R_publish q c \<and> pcs w t \<noteq> R_select q c \<and>
               pcs w t \<noteq> R_parked q c) \<and>
            (fire e w (Step t) = None \<longrightarrow>
               (pcs w t = R_lock opts \<and> requestMu (svc w)) \<or>
               pcs w t = Finished (RetRequest True None)) \<and>
            (\<forall>w'. fire e w (Step t) = Some w' \<longrightarrow> requests (svc w') = requests (svc w))) \<and>
         (\<forall>opts. resolveDir e wd (Path opts) \<noteq> Path p \<longrightarrow>
            snd (Request_locked e (svc w1) opts) = snd (Request_locked e (svc w0) opts) \<and>
            (\<forall>q c. snd (Request_locked e (svc w0) opts) = AwaitsDecision q c \<longrightarrow>
               requests (fst (Request_locked e (svc w1) opts)) =
                 requests (svc w1) @ [(CreatedEvent, q)])) \<and>
         (\<forall>q. Path q \<noteq> Path p \<longrightarrow> cached (svc w1) q = cached (svc w0) q)"
proof -
  from assms(3) obtain s' x' where st: "step_pc e (svc w0) (pcs w0 g) = Some (s', x')"
    and w1: "w1 = w0\<lparr>svc := s', pcs := (pcs w0)(g := x')\<rparr>"
    by (rule fire_Step)
  from st assms(2)
  have s': "s' = (svc w0)\<lparr>sessionPermissions := sessionPermissions (svc w0) @ [p]\<rparr>"
    by auto
  have app: "svc w1 = (svc w0)\<lparr>sessionPermissions := sessionPermissions (svc w0) @ [p]\<rparr>"
    by (simp add: w1 s')
  have "workingDir (svc w0) = workingDir (svc (boot wd skip allowed))"
    using assms(1) by (rule run_workingDir)
  then have wd0: "workingDir (svc w0) = wd" by (simp add: boot_def NewPermissionService_def)
  have mem1: "p \<in> set (sessionPermissions (svc w1))" by (simp add: app)
  have first: "requests (svc w3) = requests (svc w2) \<and>
            p \<in> set (sessionPermissions (svc w)) \<and>
            count_list evs2 (Step t) \<le> 8 \<and>
            (count_list evs2 (Step t) = 8 \<longrightarrow> pcs w t = Finished (RetRequest True None)) \<and>
            (\<forall>r. pcs w t = Finished r \<longrightarrow> r = RetRequest True None) \<and>
            (\<forall>q c. pcs w t \<noteq> R_publish q c \<and> pcs w t \<noteq> R_select q c \<and>
               pcs w t \<noteq> R_parked q c) \<and>
            (fire e w (Step t) = None \<longrightarrow>
               (pcs w t = R_lock opts \<and> requestMu (svc w)) \<or>
               pcs w t = Finished (RetRequest True None)) \<and>
            (\<forall>w'. fire e w (Step t) = Some w' \<longrightarrow> requests (svc w') = requests (svc w))"
    if same: "ToolName opts = ToolName p" "Action opts = Action p"
        "SessionID opts = SessionID p" "resolveDir e wd (Path opts) = Path p"
      and r1: "run e w1 evs1 = Some w2" and at: "pcs w2 t = R_mode opts"
      and reg: "mode (svc w2) = ModeRegular" and f: "fire e w2 (Step t) = Some w3"
      and r2: "run e w3 evs2 = Some w" and nc: "\<forall>cl. Call t cl \<notin> set evs2"
    for opts evs1 w2 t w3 evs2 w
  proof -
    from f obtain s2 x2 where st2: "step_pc e (svc w2) (pcs w2 t) = Some (s2, x2)"
      and w3: "w3 = w2\<lparr>svc := s2, pcs := (pcs w2)(t := x2)\<rparr>"
      by (rule fire_Step)
    from st2 at reg have "s2 = svc w2" and "x2 = R_notify opts" by auto
    with w3 have w3': "svc w3 = svc w2" "pcs w3 t = R_notify opts" by simp_all
    have "workingDir (svc w2) = workingDir (svc w1)" using r1 by (rule run_workingDir)
    with wd0 have wd2: "workingDir (svc w2) = wd" by (simp add: app)
    from mem1 r1 have mem2: "p \<in> set (sessionPermissions (svc w2))" by (rule run_cache)
    have a0: "approving p opts t wd 0 w3"
      using w3' wd2 mem2 by (simp add: approving_def fastTrack_def stepsLeft_def)
    from approving_run [OF r2 nc a0 same]
    have a: "approving p opts t wd (count_list evs2 (Step t)) w" by simp
    then have ft: "fastTrack p opts (pcs w t)"
      and mem: "p \<in> set (sessionPermissions (svc w))"
      and k: "stepsLeft (pcs w t) + count_list evs2 (Step t) \<le> 8"
      by (simp_all add: approving_def)
    have fin: "pcs w t = Finished (RetRequest True None)" if "count_list evs2 (Step t) = 8"
      using ft k that by (intro fastTrack_done [of p opts]) simp_all
    have res: "r = RetRequest True None" if "pcs w t = Finished r" for r
      using ft that by (simp add: fastTrack_def)
    have blocked: "(pcs w t = R_lock opts \<and> requestMu (svc w)) \<or>
        pcs w t = Finished (RetRequest True None)" if "fire e w (Step t) = None"
    proof -
      from that have "step_pc e (svc w) (pcs w t) = None" by (auto split: option.splits)
      then show ?thesis using ft by (rule fastTrack_blocked)
    qed
    have quiet: "requests (svc w') = requests (svc w)" if "fire e w (Step t) = Some w'" for w'
      using that a same by (rule approving_step(2))
    have never: "pcs w t \<noteq> R_publish q c \<and> pcs w t \<noteq> R_select q c \<and>
        pcs w t \<noteq> R_parked q c" for q c
      using fastTrack_point(2-4) [OF ft] by simp
    have bound: "count_list evs2 (Step t) \<le> 8" using k by simp
    show ?thesis
    proof (intro conjI allI impI)
      show "requests (svc w3) = requests (svc w2)" by (simp add: w3'(1))
      show "p \<in> set (sessionPermissions (svc w))" by (rule mem)
      show "count_list evs2 (Step t) \<le> 8" by (rule bound)
      show "pcs w t = Finished (RetRequest True None)" if "count_list evs2 (Step t) = 8"
        using that by (rule fin)
      show "r = RetRequest True None" if "pcs w t = Finished r" for r
        using that by (rule res)
      show "pcs w t \<noteq> R_publish q c" for q c using never by simp
      show "pcs w t \<noteq> R_select q c" for q c using never by simp
      show "pcs w t \<noteq> R_parked q c" for q c using never by simp
      show "(pcs w t = R_lock opts \<and> requestMu (svc w)) \<or>
          pcs w t = Finished (RetRequest True None)" if "fire e w (Step t) = None"
        using that by (rule blocked)
      show "requests (svc w') = requests (svc w)" if "fire e w (Step t) = Some w'" for w'
        using that by (rule quiet)
    qed
  qed
  have second: "snd (Request_locked e (svc w1) opts) = snd (Request_locked e (svc w0) opts) \<and>
            (\<forall>q c. snd (Request_locked e (svc w0) opts) = AwaitsDecision q c \<longrightarrow>
               requests (fst (Request_locked e (svc w1) opts)) =
                 requests (svc w1) @ [(CreatedEvent, q)])"
    if "resolveDir e wd (Path opts) \<noteq> Path p" for opts
  proof -
    from that wd0 have d: "resolveDir e (workingDir (svc w0)) (Path opts) \<noteq> Path p" by simp
    from Request_locked_append [OF d] show ?thesis by (simp add: app)
  qed
  have third: "cached (svc w1) q = cached (svc w0) q" if "Path q \<noteq> Path p" for q
    using that by (simp add: app cached_append)
  have first': "\<forall>opts evs1 w2 t w3 evs2 w.
            ToolName opts = ToolName p \<and> Action opts = Action p \<and>
            SessionID opts = SessionID p \<and> resolveDir e wd (Path opts) = Path p \<and>
            run e w1 evs1 = Some w2 \<and> pcs w2 t = R_mode opts \<and>
            mode (svc w2) = ModeRegular \<and> fire e w2 (Step t) = Some w3 \<and>
            run e w3 evs2 = Some w \<and> (\<forall>cl. Call t cl \<notin> set evs2) \<longrightarrow>
            requests (svc w3) = requests (svc w2) \<and>
            p \<in> set (sessionPermissions (svc w)) \<and>
            count_list evs2 (Step t) \<le> 8 \<and>
            (count_list evs2 (Step t) = 8 \<longrightarrow> pcs w t = Finished (RetRequest True None)) \<and>
            (\<forall>r. pcs w t = Finished r \<longrightarrow> r = RetRequest True None) \<and>
            (\<forall>q c. pcs w t \<noteq> R_publish q c \<and> pcs w t \<noteq> R_select q c \<and>
               pcs w t \<noteq> R_parked q c) \<and>
            (fire e w (Step t) = None \<longrightarrow>
               (pcs w t = R_lock opts \<and> requestMu (svc w)) \<or>
               pcs w t = Finished (RetRequest True None)) \<and>
            (\<forall>w'. fire e w (Step t) = Some w' \<longrightarrow> requests (svc w') = requests (svc w))"
  proof (intro allI impI)
    fix opts evs1 w2 t w3 evs2 w
    assume H: "ToolName opts = ToolName p \<and> Action opts = Action p \<and>
            SessionID opts = SessionID p \<and> resolveDir e wd (Path opts) = Path p \<and>
            run e w1 evs1 = Some w2 \<and> pcs w2 t = R_mode opts \<and>
            mode (svc w2) = ModeRegular \<and> fire e w2 (Step t) = Some w3 \<and>
            run e w3 evs2 = Some w \<and> (\<forall>cl. Call t cl \<notin> set evs2)"
    then have "ToolName opts = ToolName p" "Action opts = Action p"
        "SessionID opts = SessionID p" "resolveDir e wd (Path opts) = Path p"
        "run e w1 evs1 = Some w2" "pcs w2 t = R_mode opts"
        "mode (svc w2) = ModeRegular" "fire e w2 (Step t) = Some w3"
        "run e w3 evs2 = Some w" "\<forall>cl. Call t cl \<notin> set evs2"
      by blast+
    then show "requests (svc w3) = requests (svc w2) \<and>
            p \<in> set (sessionPermissions (svc w)) \<and>
            count_list evs2 (Step t) \<le> 8 \<and>
            (count_list evs2 (Step t) = 8 \<longrightarrow> pcs w t = Finished (RetRequest True None)) \<and>
            (\<forall>r. pcs w t = Finished r \<longrightarrow> r = RetRequest True None) \<and>
            (\<forall>q c. pcs w t \<noteq> R_publish q c \<and> pcs w t \<noteq> R_select q c \<and>
               pcs w t \<noteq> R_parked q c) \<and>
            (fire e w (Step t) = None \<longrightarrow>
               (pcs w t = R_lock opts \<and> requestMu (svc w)) \<or>
               pcs w t = Finished (RetRequest True None)) \<and>
            (\<forall>w'. fire e w (Step t) = Some w' \<longrightarrow> requests (svc w') = requests (svc w))"
      by (rule first)
  qed
  from second have second': "\<forall>opts. resolveDir e wd (Path opts) \<noteq> Path p \<longrightarrow>
            snd (Request_locked e (svc w1) opts) = snd (Request_locked e (svc w0) opts) \<and>
            (\<forall>q c. snd (Request_locked e (svc w0) opts) = AwaitsDecision q c \<longrightarrow>
               requests (fst (Request_locked e (svc w1) opts)) =
                 requests (svc w1) @ [(CreatedEvent, q)])"
    by blast
  from third have third': "\<forall>q. Path q \<noteq> Path p \<longrightarrow> cached (svc w1) q = cached (svc w0) q"
    by blast
  from app first' second' third' show ?thesis by (intro conjI)
qed

theorem persistent_grant_memoized_witness:
  "\<exists>w0 w1 w2 w3 w.
     appendPoint = Some w0 \<and>
     pcs w0 2 = D_append (bashPrompt ''/repo'' 0) \<and>
     fire exampleEnv w0 (Step 2) = Some w1 \<and>
     run exampleEnv w1
       [Step 2, Step 1, Step 1, Step 1, Call 1 (CallRequest (bashExecute ''/repo''))] = Some w2 \<and>
     pcs w2 1 = R_mode (bashExecute ''/repo'') \<and>
     mode (svc w2) = ModeRegular \<and>
     fire exampleEnv w2 (Step 1) = Some w3 \<and>
     run exampleEnv w3 [Step 1, Step 1, Step 1, Step 1, Step 1, Step 1, Step 1, Step 1] = Some w \<and>
     pcs w 1 = Finished (RetRequest True None) \<and>
     requests (svc w) = [(CreatedEvent, bashPrompt ''/repo'' 0)] \<and>
     snd (Request_locked exampleEnv (svc w0) (bashExecute ''/tmp'')) =
       AwaitsDecision (bashPrompt ''/tmp'' 1) 1 \<and>
     snd (Request_locked exampleEnv (svc w1) (bashExecute ''/tmp'')) =
       AwaitsDecision (bashPrompt ''/tmp'' 1) 1 \<and>
     requests (fst (Request_locked exampleEnv (svc w1) (bashExecute ''/tmp''))) =
       requests (svc w1) @ [(CreatedEvent, bashPrompt ''/tmp'' 1)]"
proof -
  have "\<exists>w0. appendPoint = Some w0 \<and>
     pcs w0 2 = D_append (bashPrompt ''/repo'' 0) \<and>
     snd (Request_locked exampleEnv (svc w0) (bashExecute ''/tmp'')) =
       AwaitsDecision (bashPrompt ''/tmp'' 1) 1 \<and>
     (\<exists>w1. fire exampleEnv w0 (Step 2) = Some w1 \<and>
       (\<exists>w2. run exampleEnv w1
           [Step 2, Step 1, Step 1, Step 1, Call 1 (CallRequest (bashExecute ''/repo''))] =
             Some w2 \<and>
         pcs w2 1 = R_mode (bashExecute ''/repo'') \<and>
         mode (svc w2) = ModeRegular \<and>
         (\<exists>w3. fire exampleEnv w2 (Step 1) = Some w3 \<and>
           (\<exists>w. run exampleEnv w3
               [Step 1, Step 1, Step 1, Step 1, Step 1, Step 1, Step 1, Step 1] = Some w \<and>
             requests (svc w) = [(CreatedEvent, bashPrompt ''/repo'' 0)]))))"
    by (simp add: scen2 entry_def afterSend_def newPermission_def resolveDir_def
          allowlisted_def autoApprove_def cached_def samePermission_def clearActive_def)
  then obtain w0 w1 w2 w3 w where r: "appendPoint = Some w0"
    and at: "pcs w0 2 = D_append (bashPrompt ''/repo'' 0)"
    and before: "snd (Request_locked exampleEnv (svc w0) (bashExecute ''/tmp'')) =
       AwaitsDecision (bashPrompt ''/tmp'' 1) 1"
    and f1: "fire exampleEnv w0 (Step 2) = Some w1"
    and r1: "run exampleEnv w1
           [Step 2, Step 1, Step 1, Step 1, Call 1 (CallRequest (bashExecute ''/repo''))] =
             Some w2"
    and w2: "pcs w2 1 = R_mode (bashExecute ''/repo'')" "mode (svc w2) = ModeRegular"
    and f2: "fire exampleEnv w2 (Step 1) = Some w3"
    and r2: "run exampleEnv w3
               [Step 1, Step 1, Step 1, Step 1, Step 1, Step 1, Step 1, Step 1] = Some w"
    and q: "requests (svc w) = [(CreatedEvent, bashPrompt ''/repo'' 0)]"
    by blast
  note T = persistent_grant_memoized [OF r [unfolded appendPoint_def] at f1]
  have same: "ToolName (bashExecute ''/repo'') = ToolName (bashPrompt ''/repo'' 0) \<and>
      Action (bashExecute ''/repo'') = Action (bashPrompt ''/repo'' 0) \<and>
      SessionID (bashExecute ''/repo'') = SessionID (bashPrompt ''/repo'' 0) \<and>
      resolveDir exampleEnv ''/repo'' (Path (bashExecute ''/repo'')) =
        Path (bashPrompt ''/repo'' 0)"
    by (simp add: bashExecute_def bashPrompt_def resolveDir_def exampleEnv_def)
  have nc: "\<forall>cl. Call 1 cl \<notin>
      set [Step 1, Step 1, Step 1, Step 1, Step 1, Step 1, Step 1, Step (1::nat)]"
    by simp
  have n: "count_list [Step 1, Step 1, Step 1, Step 1, Step 1, Step 1, Step 1, Step (1::nat)]
      (Step 1) = 8"
    by simp
  from T [THEN conjunct2, THEN conjunct1, rule_format,
      of "bashExecute ''/repo''" _ w2 1 w3 _ w] same r1 w2 f2 r2 nc
  have "count_list [Step 1, Step 1, Step 1, Step 1, Step 1, Step 1, Step 1, Step (1::nat)]
      (Step 1) = 8 \<longrightarrow> pcs w 1 = Finished (RetRequest True None)"
    by blast
  with n have fin: "pcs w 1 = Finished (RetRequest True None)" by blast
  have other: "resolveDir exampleEnv ''/repo'' (Path (bashExecute ''/tmp'')) \<noteq>
      Path (bashPrompt ''/repo'' 0)"
    by (simp add: bashExecute_def bashPrompt_def resolveDir_def exampleEnv_def)
  from T [THEN conjunct2, THEN conjunct2, THEN conjunct1, rule_format,
      of "bashExecute ''/tmp''"] other
  have "snd (Request_locked exampleEnv (svc w1) (bashExecute ''/tmp'')) =
      snd (Request_locked exampleEnv (svc w0) (bashExecute ''/tmp''))"
    and "\<forall>q c. snd (Request_locked exampleEnv (svc w0) (bashExecute ''/tmp'')) =
        AwaitsDecision q c \<longrightarrow>
      requests (fst (Request_locked exampleEnv (svc w1) (bashExecute ''/tmp''))) =
        requests (svc w1) @ [(CreatedEvent, q)]"
    by blast+
  with before have after: "snd (Request_locked exampleEnv (svc w1) (bashExecute ''/tmp'')) =
       AwaitsDecision (bashPrompt ''/tmp'' 1) 1"
    and pub: "requests (fst (Request_locked exampleEnv (svc w1) (bashExecute ''/tmp''))) =
       requests (svc w1) @ [(CreatedEvent, bashPrompt ''/tmp'' 1)]"
    by simp_all
  from r at f1 r1 w2 f2 r2 fin q before after pub show ?thesis by blast
qed

section \<open>Cancellation\<close>



section \<open>The deprecated mode controls\<close>

text \<open>
  C10. \<^verbatim>\<open>SkipRequests\<close> is true exactly in Yolo mode. \<^verbatim>\<open>SetSkipRequests(false)\<close> sets the
  mode to Regular whatever it was and changes nothing else, so in Plan mode it leaves
  Plan mode.
\<close>

theorem skip_requests_controls:
  "SkipRequests s = (mode s = ModeYolo) \<and>
   SetSkipRequests False s = s\<lparr>mode := ModeRegular\<rparr> \<and>
   (mode s = ModePlan \<longrightarrow> GetMode (SetSkipRequests False s) = ModeRegular \<and>
      GetMode (SetSkipRequests False s) \<noteq> mode s)"
  by (simp add: SkipRequests_def GetMode_def SetSkipRequests_def SetMode_def)

theorem skip_requests_controls_witness:
  "mode (generousService ModePlan) = ModePlan \<and>
   \<not> SkipRequests (generousService ModePlan) \<and>
   GetMode (SetSkipRequests False (generousService ModePlan)) = ModeRegular"
  using skip_requests_controls [of "generousService ModePlan"]
  by (simp add: generousService_def GetMode_def)

end
